theory Spec2Isabelle
  imports Main "HOL-Library.AList"
begin

section \<open>Errors and dictionaries\<close>

text \<open>
  The exceptions of the Python source become values. Every operation returns its result
  (\<open>Inl\<close> an exception, \<open>Inr\<close> a value) together with the state it leaves behind: a
  raised exception does not roll the object back, so the state at the raise is part of
  the outcome.
\<close>

datatype error = KeyError | AttributeError | IndexError | TypeError | ValueError | TransportError

text \<open>
  A Python \<open>dict\<close> whose items are enumerated (\<open>keys()\<close>, \<open>values()\<close>) is an
  association list with distinct keys in insertion order; \<open>AList.update\<close> is
  \<open>d[k] = v\<close>: an existing key keeps its place, a new key goes to the end.
\<close>

type_synonym ('k, 'v) dict = "('k \<times> 'v) list"

definition dict_update :: "('k, 'v) dict \<Rightarrow> ('k \<times> 'v) list \<Rightarrow> ('k, 'v) dict" where
  \<comment> \<open>\<open>d.update(pairs)\<close>: the pairs are stored in order, the last one wins.\<close>
  "dict_update d ps = AList.updates (map fst ps) (map snd ps) d"

definition dict_of :: "('k \<times> 'v) list \<Rightarrow> ('k, 'v) dict" where
  \<comment> \<open>the dict comprehension \<open>{k: v for (k, v) in ps}\<close>\<close>
  "dict_of ps = dict_update [] ps"

definition dict_keys :: "('k, 'v) dict \<Rightarrow> 'k list" where
  "dict_keys d = map fst d"

definition dict_values :: "('k, 'v) dict \<Rightarrow> 'v list" where
  "dict_values d = map snd d"

section \<open>The remote store\<close>

text \<open>
  Modelled from the spec: \<open>World.blocks\<close> and \<open>World.connection\<close> (the classes
  \<open>Blocks\<close> and \<open>Connection\<close> are not part of the sources at hand). The spec describes
  the RemoteStore as a bulk get and a bulk set of cell values by coordinate, where every
  read or write of a single cell costs a round trip, the writes of one bulk set are
  bracketed in one remote batch transaction, and writing an empty mapping performs no
  remote call. A transport failure raises and leaves the store as it was.
  \<open>fetched\<close> and \<open>sent\<close> record the traffic: one entry per bulk fetch and one entry per
  transmitted write transaction.
\<close>

record ('k, 'b) remote_store =
  blocks :: "'k \<Rightarrow> 'b"
  online :: bool
  fetched :: "'k list list"
  sent :: "('k \<times> 'b) list list"

definition remote_get ::
  "('k, 'b) remote_store \<Rightarrow> 'k list \<Rightarrow> (error + 'b list) \<times> ('k, 'b) remote_store" where
  "remote_get w ks =
     (if online w then (Inr (map (blocks w) ks), w\<lparr>fetched := fetched w @ [ks]\<rparr>)
      else (Inl TransportError, w))"

definition remote_set ::
  "('k, 'b) remote_store \<Rightarrow> ('k, 'b) dict \<Rightarrow> (error + unit) \<times> ('k, 'b) remote_store" where
  "remote_set w d =
     (if d = [] then (Inr (), w)
      else if online w then
        (Inr (), w\<lparr>blocks := (\<lambda>k. case map_of d k of None \<Rightarrow> blocks w k | Some b \<Rightarrow> b),
                   sent := sent w @ [d]\<rparr>)
      else (Inl TransportError, w))"

section \<open>TurtleCache\<close>

text \<open>
  \<open>_cache\<close> is the shared cache, \<open>_batch\<close> the thread-local state of the calling
  thread: \<open>None\<close> when the attributes \<open>level\<close> and \<open>state\<close> are absent, else the
  nesting level and the overlay of uncommitted writes. \<open>_world\<close> is the remote store.
\<close>

record ('k, 'b) TurtleCache =
  world :: "('k, 'b) remote_store"
  cache :: "'k \<rightharpoonup> 'b"
  batch :: "(int \<times> ('k, 'b) dict) option"

definition cache_enter :: "('k, 'b) TurtleCache \<Rightarrow> ('k, 'b) TurtleCache" where
  \<comment> \<open>\<open>__enter__\<close>\<close>
  "cache_enter c =
     (case batch c of
        Some (level, state) \<Rightarrow> c\<lparr>batch := Some (level + 1, state)\<rparr>
      | None \<Rightarrow> c\<lparr>batch := Some (1, [])\<rparr>)"

definition getitem ::
  "('k, 'b) TurtleCache \<Rightarrow> 'k list \<Rightarrow> (error + ('k, 'b) dict) \<times> ('k, 'b) TurtleCache" where
  \<comment> \<open>\<open>__getitem__\<close>; \<open>batch.get(v, self._cache[v])\<close> evaluates \<open>self._cache[v]\<close>
      for every requested \<open>v\<close>, also when the overlay holds \<open>v\<close>.\<close>
  "getitem c positions =
     (let bt = (case batch c of Some (level, state) \<Rightarrow> state | None \<Rightarrow> []);
          unknown = remdups (filter (\<lambda>v. cache c v = None \<and> map_of bt v = None) positions);
          (r, c1) =
            (if unknown \<noteq> [] then
               (case remote_get (world c) unknown of
                  (Inl e, w) \<Rightarrow> (Inl e, c\<lparr>world := w\<rparr>)
                | (Inr bs, w) \<Rightarrow>
                    (Inr (), c\<lparr>world := w, cache := cache c ++ map_of (zip unknown bs)\<rparr>))
             else (Inr (), c))
      in case r of
           Inl e \<Rightarrow> (Inl e, c1)
         | Inr _ \<Rightarrow>
             if \<exists>v \<in> set positions. cache c1 v = None then (Inl KeyError, c1)
             else (Inr (dict_of (map (\<lambda>v. (v, case map_of bt v of
                                               Some b \<Rightarrow> b
                                             | None \<Rightarrow> the (cache c1 v))) positions)), c1))"

definition setitem ::
  "('k, 'b) TurtleCache \<Rightarrow> 'k list \<Rightarrow> 'b list \<Rightarrow> (error + unit) \<times> ('k, 'b) TurtleCache" where
  \<comment> \<open>\<open>__setitem__\<close>; \<open>self._cache[v]\<close> in the diff raises for an uncached \<open>v\<close>.\<close>
  "setitem c positions blks =
     (case batch c of
        Some (level, state) \<Rightarrow>
          (Inr (), c\<lparr>batch := Some (level, dict_update state (dict_of (zip positions blks)))\<rparr>)
      | None \<Rightarrow>
          if \<exists>(v, b) \<in> set (zip positions blks). cache c v = None then (Inl KeyError, c)
          else
            (let diff = dict_of (filter (\<lambda>(v, b). cache c v \<noteq> Some b) (zip positions blks))
             in case remote_set (world c) diff of
                  (Inl e, w) \<Rightarrow> (Inl e, c\<lparr>world := w\<rparr>)
                | (Inr _, w) \<Rightarrow> (Inr (), c\<lparr>world := w, cache := cache c ++ map_of diff\<rparr>)))"

definition cache_exit ::
  "('k, 'b) TurtleCache \<Rightarrow> bool \<Rightarrow> (error + unit) \<times> ('k, 'b) TurtleCache" where
  \<comment> \<open>\<open>__exit__\<close>; \<open>failed\<close> is \<open>exc_type is not None\<close>.\<close>
  "cache_exit c failed =
     (case batch c of
        None \<Rightarrow> (Inl AttributeError, c)
      | Some (level, state) \<Rightarrow>
          if level - 1 = 0 then
            (let c1 = c\<lparr>batch := None\<rparr>
             in if failed then (Inr (), c1)
                else setitem c1 (dict_keys state) (dict_values state))
          else (Inr (), c\<lparr>batch := Some (level - 1, state)\<rparr>))"






section \<open>Blocks and vectors\<close>

text \<open>
  Modelled from the spec: \<open>Block\<close> (an identifier plus auxiliary data, with value
  equality) and \<open>Vector\<close> (a 3-tuple); the modules \<open>block\<close> and \<open>vector\<close> are not
  part of the sources at hand. The vector arithmetic the turtle calls (cross product,
  rotation, normalisation, rounding, line rasterisation) is an external collaborator:
  the turtle's operations take it as the parameter \<open>G\<close>.
\<close>

datatype Block = Block string nat

datatype 'a Vector = Vector 'a 'a 'a

record ('v, 'r) vector_ops =
  vec_O :: 'v
  vec_X :: 'v
  vec_Y :: 'v
  vec_Z :: 'v
  vec_add :: "'v \<Rightarrow> 'v \<Rightarrow> 'v"
  vec_sub :: "'v \<Rightarrow> 'v \<Rightarrow> 'v"
  vec_scale :: "'r \<Rightarrow> 'v \<Rightarrow> 'v"
  vec_cross :: "'v \<Rightarrow> 'v \<Rightarrow> 'v"
  vec_unit :: "'v \<Rightarrow> 'v"
  vec_rotate :: "'v \<Rightarrow> 'r \<Rightarrow> 'v \<Rightarrow> 'v"
  vec_round :: "'v \<Rightarrow> 'v"
  vec_line :: "'v \<Rightarrow> 'v \<Rightarrow> 'v list"

section \<open>The turtle\<close>

datatype action = AHome | AMove | ALine | ATurtle

record ('v, 'r) TurtleState =
  position :: 'v
  heading :: 'v
  elevation :: 'r
  visible :: bool
  pendown :: bool
  penblock :: Block
  fillblock :: Block
  changed :: "('v, Block) dict"
  action :: action

definition clamp :: "'r::linorder \<Rightarrow> 'r \<Rightarrow> 'r \<Rightarrow> 'r" where
  "clamp val min_value max_value = min max_value (max min_value val)"

text \<open>
  \<open>screen\<close> stands for the \<open>TurtleScreen\<close>, which pairs the world with its
  \<open>TurtleCache\<close>; the world is the cache's \<open>world\<close> field.
\<close>

record ('v, 'r) Turtle =
  screen :: "('v, Block) TurtleCache"
  state :: "('v, 'r) TurtleState"
  last_position :: 'v
  history :: "('v, 'r) TurtleState list"

definition draw ::
  "('k, 'b) TurtleCache \<Rightarrow> ('k, 'b) dict \<Rightarrow> (error + unit) \<times> ('k, 'b) TurtleCache" where
  \<comment> \<open>\<open>TurtleScreen.draw\<close>\<close>
  "draw c st = setitem c (dict_keys st) (dict_values st)"

definition and_then ::
  "(error + 'a) \<times> 's \<Rightarrow> ('a \<Rightarrow> 's \<Rightarrow> (error + 'b) \<times> 's) \<Rightarrow> (error + 'b) \<times> 's" where
  \<comment> \<open>statement sequencing: an exception skips what follows\<close>
  "and_then m f = (case m of (Inl e, s) \<Rightarrow> (Inl e, s) | (Inr a, s) \<Rightarrow> f a s)"

definition with_blocks ::
  "(('v, 'r) Turtle \<Rightarrow> (error + 'a) \<times> ('v, 'r) Turtle) \<Rightarrow> ('v, 'r) Turtle
     \<Rightarrow> (error + 'a) \<times> ('v, 'r) Turtle" where
  \<comment> \<open>\<open>with self._screen.blocks: body\<close>; \<open>__exit__\<close> runs also when the body
      raised, and an exception of \<open>__exit__\<close> replaces the body's outcome.\<close>
  "with_blocks body t =
     (let (r, t1) = body (t\<lparr>screen := cache_enter (screen t)\<rparr>)
      in case cache_exit (screen t1) (isl r) of
           (Inl e, c) \<Rightarrow> (Inl e, t1\<lparr>screen := c\<rparr>)
         | (Inr _, c) \<Rightarrow> (r, t1\<lparr>screen := c\<rparr>))"

definition commit ::
  "('v, Block) dict \<Rightarrow> action \<Rightarrow> ('v, 'r) Turtle \<Rightarrow> (error + unit) \<times> ('v, 'r) Turtle" where
  \<comment> \<open>\<open>_commit\<close>\<close>
  "commit changes act t =
     (case getitem (screen t) (dict_keys changes) of
        (Inl e, c) \<Rightarrow> (Inl e, t\<lparr>screen := c\<rparr>)
      | (Inr reverse_diff, c) \<Rightarrow>
          (let t1 = t\<lparr>screen := c,
                      history := history t @ [(state t)\<lparr>changed := reverse_diff, action := act\<rparr>]\<rparr>
           in if changes \<noteq> [] then
                (case draw (screen t1) changes of (r, c1) \<Rightarrow> (r, t1\<lparr>screen := c1\<rparr>))
              else (Inr (), t1)))"

definition draw_vectors :: "('v, 'r) vector_ops \<Rightarrow> ('v, 'r) TurtleState \<Rightarrow> 'v \<times> 'v" where
  \<comment> \<open>\<open>_draw_vectors\<close>\<close>
  "draw_vectors G s =
     (let arm_v = vec_unit G (vec_cross G (heading s) (vec_Y G));
          arm_v = (if arm_v = vec_O G then vec_X G else arm_v);
          head_v = vec_rotate G (heading s) (elevation s) arm_v
      in (arm_v, head_v))"

definition marker :: "('v, 'r) vector_ops \<Rightarrow> ('v, 'r) TurtleState \<Rightarrow> ('v, Block) dict" where
  \<comment> \<open>the dict \<open>state\<close> that \<open>_draw_turtle\<close> builds\<close>
  "marker G s =
     (let (arm_v, head_v) = draw_vectors G s;
          head = vec_round G (vec_add G (position s) head_v);
          left_arm = vec_round G (vec_add G (position s) arm_v);
          right_arm = vec_round G (vec_sub G (position s) arm_v);
          st = dict_of (map (\<lambda>v. (v, Block ''wool'' 15)) [head, left_arm, right_arm])
      in if pendown s then AList.update (position s) (penblock s) st else st)"

definition draw_turtle ::
  "('v, 'r) vector_ops \<Rightarrow> ('v, 'r) Turtle \<Rightarrow> (error + unit) \<times> ('v, 'r) Turtle" where
  \<comment> \<open>\<open>_draw_turtle\<close>\<close>
  "draw_turtle G t = commit (marker G (state t)) ATurtle t"

function undraw_loop :: "('v, 'r) Turtle \<Rightarrow> (error + unit) \<times> ('v, 'r) Turtle" where
  \<comment> \<open>the \<open>while\<close> loop of \<open>_undraw_turtle\<close>; \<open>pop()\<close> runs before \<open>draw\<close>\<close>
  "undraw_loop t =
     (if history t \<noteq> [] \<and> action (last (history t)) = ATurtle then
        (let e = last (history t);
             t1 = t\<lparr>history := butlast (history t)\<rparr>
         in case draw (screen t1) (changed e) of
              (Inl err, c) \<Rightarrow> (Inl err, t1\<lparr>screen := c\<rparr>)
            | (Inr _, c) \<Rightarrow> undraw_loop (t1\<lparr>screen := c\<rparr>))
      else (Inr (), t))"
  by pat_completeness auto
termination
  by (relation "measure (\<lambda>t. length (history t))") auto

definition undraw_turtle :: "('v, 'r) Turtle \<Rightarrow> (error + unit) \<times> ('v, 'r) Turtle" where
  \<comment> \<open>\<open>_undraw_turtle\<close>\<close>
  "undraw_turtle t = with_blocks undraw_loop t"

definition update ::
  "('v, 'r) vector_ops \<Rightarrow> ('v, 'r) Turtle \<Rightarrow> (error + unit) \<times> ('v, 'r) Turtle" where
  \<comment> \<open>\<open>_update\<close>\<close>
  "update G t =
     with_blocks (\<lambda>t.
       and_then (undraw_turtle t) (\<lambda>_ t.
       and_then
         (if pendown (state t) \<and> position (state t) \<noteq> last_position t then
            commit (dict_of (map (\<lambda>v. (v, penblock (state t)))
                                 (vec_line G (last_position t) (position (state t))))) ALine t
          else commit [] AMove t) (\<lambda>_ t.
       and_then (if visible (state t) then draw_turtle G t else (Inr (), t)) (\<lambda>_ t.
       (Inr (), t\<lparr>last_position := position (state t)\<rparr>))))) t"

definition undo ::
  "('v, 'r) vector_ops \<Rightarrow> ('v, 'r) Turtle \<Rightarrow> (error + unit) \<times> ('v, 'r) Turtle" where
  \<comment> \<open>\<open>undo\<close>; \<open>self._history[-1]\<close> raises IndexError on an empty list\<close>
  "undo G t =
     with_blocks (\<lambda>t.
       and_then (undraw_turtle t) (\<lambda>_ t.
       and_then
         (if history t = [] then (Inl IndexError, t)
          else if action (last (history t)) \<noteq> AHome then
            (let e = last (history t);
                 t1 = t\<lparr>history := butlast (history t)\<rparr>
             in and_then (case draw (screen t1) (changed e) of (r, c) \<Rightarrow> (r, t1\<lparr>screen := c\<rparr>))
                  (\<lambda>_ t.
                    if history t = [] then (Inl IndexError, t)
                    else (Inr (), t\<lparr>state := last (history t),
                                     last_position := position (last (history t))\<rparr>)))
          else (Inr (), t)) (\<lambda>_ t.
       if visible (state t) then draw_turtle G t else (Inr (), t)))) t"

definition home ::
  "('v, 'r::zero) vector_ops \<Rightarrow> ('v, 'r) Turtle \<Rightarrow> (error + unit) \<times> ('v, 'r) Turtle" where
  "home G t =
     (if history t = [] then (Inl IndexError, t)
      else update G (t\<lparr>state := (state t)\<lparr>position := position (hd (history t)),
                                           heading := vec_Z G, elevation := 0\<rparr>\<rparr>))"

function clear_loop :: "('v, 'r) Turtle \<Rightarrow> (error + unit) \<times> ('v, 'r) Turtle" where
  \<comment> \<open>the \<open>while\<close> loop of \<open>clear\<close>\<close>
  "clear_loop t =
     (if history t = [] then (Inl IndexError, t)
      else if action (last (history t)) \<noteq> AHome then
        (let e = last (history t);
             t1 = t\<lparr>history := butlast (history t)\<rparr>
         in case draw (screen t1) (changed e) of
              (Inl err, c) \<Rightarrow> (Inl err, t1\<lparr>screen := c\<rparr>)
            | (Inr _, c) \<Rightarrow> clear_loop (t1\<lparr>screen := c\<rparr>))
      else (Inr (), t))"
  by pat_completeness auto
termination
  by (relation "measure (\<lambda>t. length (history t))") auto

definition clear ::
  "('v, 'r) vector_ops \<Rightarrow> ('v, 'r) Turtle \<Rightarrow> (error + unit) \<times> ('v, 'r) Turtle" where
  "clear G t = with_blocks (\<lambda>t. and_then (clear_loop t) (\<lambda>_ t. update G t)) t"

definition reset ::
  "('v, 'r::zero) vector_ops \<Rightarrow> ('v, 'r) Turtle \<Rightarrow> (error + unit) \<times> ('v, 'r) Turtle" where
  "reset G t =
     with_blocks (\<lambda>t.
       and_then (clear G t) (\<lambda>_ t.
         if history t = [] then (Inl IndexError, t)
         else home G (t\<lparr>last_position := position (hd (history t))\<rparr>))) t"

definition Turtle_init ::
  "('v, 'r::zero) vector_ops \<Rightarrow> ('v, Block) TurtleCache \<Rightarrow> 'v
     \<Rightarrow> (error + unit) \<times> ('v, 'r) Turtle" where
  \<comment> \<open>\<open>Turtle.__init__\<close> with an explicit screen and position\<close>
  "Turtle_init G scr pos =
     (let s = \<lparr>position = pos, heading = vec_Z G, elevation = 0, visible = True,
               pendown = True, penblock = Block ''stone'' 0, fillblock = Block ''stone'' 0,
               changed = [], action = AHome\<rparr>
      in draw_turtle G \<lparr>screen = scr, state = s, last_position = pos, history = [s]\<rparr>)"

subsection \<open>The state-changing operations\<close>

definition forward ::
  "('v, 'r) vector_ops \<Rightarrow> 'r \<Rightarrow> ('v, 'r) Turtle \<Rightarrow> (error + unit) \<times> ('v, 'r) Turtle" where
  "forward G distance t =
     (let (arm_v, head_v) = draw_vectors G (state t)
      in update G (t\<lparr>state := (state t)\<lparr>position :=
           vec_round G (vec_add G (position (state t)) (vec_scale G distance head_v))\<rparr>\<rparr>))"

definition backward ::
  "('v, 'r) vector_ops \<Rightarrow> 'r \<Rightarrow> ('v, 'r) Turtle \<Rightarrow> (error + unit) \<times> ('v, 'r) Turtle" where
  "backward G distance t =
     (let (arm_v, head_v) = draw_vectors G (state t)
      in update G (t\<lparr>state := (state t)\<lparr>position :=
           vec_round G (vec_sub G (position (state t)) (vec_scale G distance head_v))\<rparr>\<rparr>))"

definition right ::
  "('v, 'r::linordered_idom) vector_ops \<Rightarrow> 'r \<Rightarrow> ('v, 'r) Turtle
     \<Rightarrow> (error + unit) \<times> ('v, 'r) Turtle" where
  "right G angle t =
     update G (t\<lparr>state := (state t)\<lparr>heading :=
       vec_rotate G (heading (state t)) (- angle) (vec_Y G)\<rparr>\<rparr>)"

definition left ::
  "('v, 'r) vector_ops \<Rightarrow> 'r \<Rightarrow> ('v, 'r) Turtle \<Rightarrow> (error + unit) \<times> ('v, 'r) Turtle" where
  "left G angle t =
     update G (t\<lparr>state := (state t)\<lparr>heading :=
       vec_rotate G (heading (state t)) angle (vec_Y G)\<rparr>\<rparr>)"

definition down ::
  "('v, 'r::linordered_idom) vector_ops \<Rightarrow> 'r \<Rightarrow> ('v, 'r) Turtle
     \<Rightarrow> (error + unit) \<times> ('v, 'r) Turtle" where
  "down G angle t =
     update G (t\<lparr>state := (state t)\<lparr>elevation :=
       clamp (elevation (state t) - angle) (- 90) 90\<rparr>\<rparr>)"

definition up ::
  "('v, 'r::linordered_idom) vector_ops \<Rightarrow> 'r \<Rightarrow> ('v, 'r) Turtle
     \<Rightarrow> (error + unit) \<times> ('v, 'r) Turtle" where
  "up G angle t =
     update G (t\<lparr>state := (state t)\<lparr>elevation :=
       clamp (elevation (state t) + angle) (- 90) 90\<rparr>\<rparr>)"

definition setelevation ::
  "('v, 'r::linordered_idom) vector_ops \<Rightarrow> 'r \<Rightarrow> ('v, 'r) Turtle
     \<Rightarrow> (error + unit) \<times> ('v, 'r) Turtle" where
  "setelevation G to_angle t =
     update G (t\<lparr>state := (state t)\<lparr>elevation := clamp to_angle (- 90) 90\<rparr>\<rparr>)"

definition setheading ::
  "('v, 'r) vector_ops \<Rightarrow> 'r \<Rightarrow> ('v, 'r) Turtle \<Rightarrow> (error + unit) \<times> ('v, 'r) Turtle" where
  "setheading G to_angle t =
     update G (t\<lparr>state := (state t)\<lparr>heading :=
       vec_rotate G (vec_Z G) to_angle (vec_Y G)\<rparr>\<rparr>)"

definition goto ::
  "('v, 'r) vector_ops \<Rightarrow> 'v \<Rightarrow> ('v, 'r) Turtle \<Rightarrow> (error + unit) \<times> ('v, 'r) Turtle" where
  \<comment> \<open>\<open>goto\<close> once its argument has become the vector \<open>other\<close>\<close>
  "goto G other t = update G (t\<lparr>state := (state t)\<lparr>position := other\<rparr>\<rparr>)"

definition pendown_op ::
  "('v, 'r) vector_ops \<Rightarrow> ('v, 'r) Turtle \<Rightarrow> (error + unit) \<times> ('v, 'r) Turtle" where
  \<comment> \<open>the method \<open>pendown\<close>\<close>
  "pendown_op G t = update G (t\<lparr>state := (state t)\<lparr>pendown := True\<rparr>\<rparr>)"

definition penup ::
  "('v, 'r) vector_ops \<Rightarrow> ('v, 'r) Turtle \<Rightarrow> (error + unit) \<times> ('v, 'r) Turtle" where
  "penup G t = update G (t\<lparr>state := (state t)\<lparr>pendown := False\<rparr>\<rparr>)"

definition showturtle ::
  "('v, 'r) vector_ops \<Rightarrow> ('v, 'r) Turtle \<Rightarrow> (error + unit) \<times> ('v, 'r) Turtle" where
  "showturtle G t = update G (t\<lparr>state := (state t)\<lparr>visible := True\<rparr>\<rparr>)"

definition hideturtle ::
  "('v, 'r) vector_ops \<Rightarrow> ('v, 'r) Turtle \<Rightarrow> (error + unit) \<times> ('v, 'r) Turtle" where
  "hideturtle G t = update G (t\<lparr>state := (state t)\<lparr>visible := False\<rparr>\<rparr>)"

definition penblock_op ::
  "('v, 'r) vector_ops \<Rightarrow> Block \<Rightarrow> ('v, 'r) Turtle \<Rightarrow> (error + unit) \<times> ('v, 'r) Turtle" where
  \<comment> \<open>the method \<open>penblock\<close> called with a block\<close>
  "penblock_op G b t = update G (t\<lparr>state := (state t)\<lparr>penblock := b\<rparr>\<rparr>)"

definition fillblock_op ::
  "('v, 'r) vector_ops \<Rightarrow> Block \<Rightarrow> ('v, 'r) Turtle \<Rightarrow> (error + unit) \<times> ('v, 'r) Turtle" where
  \<comment> \<open>the method \<open>fillblock\<close> called with a block\<close>
  "fillblock_op G b t = update G (t\<lparr>state := (state t)\<lparr>fillblock := b\<rparr>\<rparr>)"

datatype ('v, 'r) turtle_op =
    Forward 'r | Backward 'r | Left 'r | Right 'r | Up 'r | Down 'r
  | Goto 'v | SetHeading 'r | SetElevation 'r
  | PenUp | PenDown | PenBlock Block | FillBlock Block | ShowTurtle | HideTurtle

fun perform ::
  "('v, 'r::linordered_idom) vector_ops \<Rightarrow> ('v, 'r) turtle_op \<Rightarrow> ('v, 'r) Turtle
     \<Rightarrow> (error + unit) \<times> ('v, 'r) Turtle" where
  "perform G (Forward d) t = forward G d t"
| "perform G (Backward d) t = backward G d t"
| "perform G (Left a) t = left G a t"
| "perform G (Right a) t = right G a t"
| "perform G (Up a) t = up G a t"
| "perform G (Down a) t = down G a t"
| "perform G (Goto v) t = goto G v t"
| "perform G (SetHeading a) t = setheading G a t"
| "perform G (SetElevation a) t = setelevation G a t"
| "perform G PenUp t = penup G t"
| "perform G PenDown t = pendown_op G t"
| "perform G (PenBlock b) t = penblock_op G b t"
| "perform G (FillBlock b) t = fillblock_op G b t"
| "perform G ShowTurtle t = showturtle G t"
| "perform G HideTurtle t = hideturtle G t"

datatype ('v, 'r) turtle_call = Op "('v, 'r) turtle_op" | Undo | Home | Clear | Reset

fun call ::
  "('v, 'r::linordered_idom) vector_ops \<Rightarrow> ('v, 'r) turtle_call \<Rightarrow> ('v, 'r) Turtle
     \<Rightarrow> (error + unit) \<times> ('v, 'r) Turtle" where
  "call G (Op x) t = perform G x t"
| "call G Undo t = undo G t"
| "call G Home t = home G t"
| "call G Clear t = clear G t"
| "call G Reset t = reset G t"

fun run_calls ::
  "('v, 'r::linordered_idom) vector_ops \<Rightarrow> ('v, 'r) turtle_call list \<Rightarrow> ('v, 'r) Turtle
     \<Rightarrow> ('v, 'r) Turtle" where
  \<comment> \<open>a sequence of calls on one turtle; the object lives on after an exception\<close>
  "run_calls G [] t = t"
| "run_calls G (x # xs) t = run_calls G xs (snd (call G x t))"

subsection \<open>Arguments that denote a position\<close>

text \<open>
  \<open>goto\<close>, \<open>towards\<close>, \<open>distance\<close> and \<open>teleport\<close> take \<open>x, y=None, z=None\<close> and
  share the same conversion. The arguments are dynamically typed: a number, \<open>None\<close>, a
  tuple, or another turtle (given by its \<open>pos()\<close>). \<open>unpack3\<close> is the statement
  \<open>x, y, z = x\<close>, which raises TypeError on a value that is not iterable and ValueError
  on a sequence that has not three items.
\<close>

datatype 'n pyval = PyNone | PyNum 'n | PyTuple "'n pyval list" | PyTurtle "'n pyval Vector"

fun unpack3 :: "'n pyval \<Rightarrow> error + ('n pyval \<times> 'n pyval \<times> 'n pyval)" where
  "unpack3 (PyTuple [a, b, c]) = Inr (a, b, c)"
| "unpack3 (PyTuple xs) = Inl ValueError"
| "unpack3 x = Inl TypeError"

definition point_arg ::
  "'n pyval \<Rightarrow> 'n pyval \<Rightarrow> 'n pyval \<Rightarrow> error + 'n pyval Vector" where
  "point_arg x y z =
     (case x of
        PyTurtle other \<Rightarrow> Inr other
      | _ \<Rightarrow>
        (case unpack3 x of
           Inr (a, b, c) \<Rightarrow> Inr (Vector a b c)
         | Inl e \<Rightarrow>
             if e = TypeError \<or> e = ValueError then Inr (Vector x y z) else Inl e))"

definition goto_call ::
  "('n pyval Vector, 'r) vector_ops \<Rightarrow> 'n pyval \<Rightarrow> 'n pyval \<Rightarrow> 'n pyval
     \<Rightarrow> ('n pyval Vector, 'r) Turtle \<Rightarrow> (error + unit) \<times> ('n pyval Vector, 'r) Turtle" where
  \<comment> \<open>\<open>goto(x, y, z)\<close> as it is called\<close>
  "goto_call G x y z t =
     (case point_arg x y z of
        Inl e \<Rightarrow> (Inl e, t)
      | Inr other \<Rightarrow> goto G other t)"

section \<open>What a read returns\<close>

text \<open>
  \<open>view c k\<close> is the value a read of \<open>k\<close> through the cache yields when it
  succeeds: the overlay's value, else the shared cache's, else the remote store's.
  A cache is \<open>sound\<close> when the remote store is reachable, the shared cache agrees with
  it, and every coordinate of the overlay is in the shared cache.
\<close>

definition overlay :: "('k, 'b) TurtleCache \<Rightarrow> ('k, 'b) dict" where
  "overlay c = (case batch c of Some (level, st) \<Rightarrow> st | None \<Rightarrow> [])"

definition level_of :: "('k, 'b) TurtleCache \<Rightarrow> int" where
  "level_of c = (case batch c of Some (level, st) \<Rightarrow> level | None \<Rightarrow> 0)"

definition view :: "('k, 'b) TurtleCache \<Rightarrow> 'k \<Rightarrow> 'b" where
  "view c k =
     (case map_of (overlay c) k of
        Some b \<Rightarrow> b
      | None \<Rightarrow> (case cache c k of Some b \<Rightarrow> b | None \<Rightarrow> blocks (world c) k))"

definition sound :: "('k, 'b) TurtleCache \<Rightarrow> bool" where
  "sound c \<longleftrightarrow>
     online (world c) \<and>
     (\<forall>k b. cache c k = Some b \<longrightarrow> blocks (world c) k = b) \<and>
     fst ` set (overlay c) \<subseteq> dom (cache c) \<and>
     distinct (map fst (overlay c)) \<and>
     (case batch c of Some (level, st) \<Rightarrow> 1 \<le> level | None \<Rightarrow> True)"

definition override :: "('k \<Rightarrow> 'b) \<Rightarrow> ('k, 'b) dict \<Rightarrow> 'k \<Rightarrow> 'b" where
  "override V d k = (case map_of d k of Some b \<Rightarrow> b | None \<Rightarrow> V k)"

definition snapshot :: "('k \<Rightarrow> 'b) \<Rightarrow> 'k list \<Rightarrow> ('k, 'b) dict" where
  \<comment> \<open>the reverse diff a successful read of the coordinates returns\<close>
  "snapshot V ks = dict_of (map (\<lambda>v. (v, V v)) ks)"

definition base :: "('v, 'r) TurtleState list \<Rightarrow> ('v, 'r) TurtleState list" where
  \<comment> \<open>the history without its trailing marker entries\<close>
  "base h = rev (dropWhile (\<lambda>e. action e = ATurtle) (rev h))"

definition trailing :: "('v, 'r) TurtleState list \<Rightarrow> ('v, 'r) TurtleState list" where
  "trailing h = rev (takeWhile (\<lambda>e. action e = ATurtle) (rev h))"

definition same_pose :: "('v, 'r) TurtleState \<Rightarrow> ('v, 'r) TurtleState \<Rightarrow> bool" where
  "same_pose s s' \<longleftrightarrow>
     position s = position s' \<and> heading s = heading s' \<and> elevation s = elevation s' \<and>
     visible s = visible s' \<and> pendown s = pendown s' \<and>
     penblock s = penblock s' \<and> fillblock s = fillblock s'"

definition sentinel :: "('v, 'r) TurtleState \<Rightarrow> ('v, 'r) Turtle \<Rightarrow> bool" where
  \<comment> \<open>the history is not empty and its first entry is \<open>e0\<close>, tagged home\<close>
  "sentinel e0 t \<longleftrightarrow> history t \<noteq> [] \<and> hd (history t) = e0 \<and> action e0 = AHome"

definition underflow :: "('v, 'r) TurtleState \<Rightarrow> ('v, 'r) Turtle \<Rightarrow> bool" where
  \<comment> \<open>nothing is left to undo: only marker entries lie above the home entry \<open>e0\<close>\<close>
  "underflow e0 t \<longleftrightarrow>
     action e0 = AHome \<and> (\<exists>T. history t = e0 # T \<and> (\<forall>e \<in> set T. action e = ATurtle))"

text \<open>
  The states between two calls: the snapshot is the one recorded by the topmost entry
  that is not a marker entry, and a visible turtle has exactly one marker entry on top,
  whose cells hold the marker.
\<close>

definition consistent :: "('v, 'r) vector_ops \<Rightarrow> ('v, 'r) Turtle \<Rightarrow> bool" where
  "consistent G t \<longleftrightarrow>
     sound (screen t) \<and>
     base (history t) \<noteq> [] \<and>
     same_pose (last (base (history t))) (state t) \<and>
     last_position t = position (state t) \<and>
     (if visible (state t) then
        (\<exists>e. trailing (history t) = [e] \<and>
           distinct (dict_keys (changed e)) \<and>
           set (dict_keys (changed e)) = set (dict_keys (marker G (state t))) \<and>
           set (dict_keys (changed e)) \<subseteq> dom (cache (screen t)) \<and>
           (\<forall>(k, b) \<in> set (marker G (state t)). view (screen t) k = b))
      else trailing (history t) = [])"

section \<open>The integer lattice\<close>

text \<open>
  Modelled from the spec: an instance of the vector operations (module \<open>vector\<close> is
  not part of the sources at hand) for turtles that move by whole cells along the axes:
  integer vectors, angles in degrees. Rotation follows Rodrigues' formula and is exact
  for angles that are multiples of 90 degrees about a unit axis; \<open>lattice_unit\<close> is
  exact for axis-parallel vectors. \<open>lattice_line\<close> is the line rasterisation of the
  spec: the inclusive sequence of integer coordinates on the straight path between two
  integer coordinates.
\<close>

fun lattice_add :: "int Vector \<Rightarrow> int Vector \<Rightarrow> int Vector" where
  "lattice_add (Vector a b c) (Vector d e f) = Vector (a + d) (b + e) (c + f)"

fun lattice_sub :: "int Vector \<Rightarrow> int Vector \<Rightarrow> int Vector" where
  "lattice_sub (Vector a b c) (Vector d e f) = Vector (a - d) (b - e) (c - f)"

fun lattice_scale :: "int \<Rightarrow> int Vector \<Rightarrow> int Vector" where
  "lattice_scale r (Vector a b c) = Vector (r * a) (r * b) (r * c)"

fun lattice_cross :: "int Vector \<Rightarrow> int Vector \<Rightarrow> int Vector" where
  "lattice_cross (Vector a b c) (Vector d e f) =
     Vector (b * f - c * e) (c * d - a * f) (a * e - b * d)"

fun lattice_dot :: "int Vector \<Rightarrow> int Vector \<Rightarrow> int" where
  "lattice_dot (Vector a b c) (Vector d e f) = a * d + b * e + c * f"

fun lattice_unit :: "int Vector \<Rightarrow> int Vector" where
  "lattice_unit (Vector a b c) = Vector (sgn a) (sgn b) (sgn c)"

definition cos_deg :: "int \<Rightarrow> int" where
  "cos_deg a = (if a mod 360 = 0 then 1 else if a mod 360 = 180 then - 1 else 0)"

definition sin_deg :: "int \<Rightarrow> int" where
  "sin_deg a = (if a mod 360 = 90 then 1 else if a mod 360 = 270 then - 1 else 0)"

definition lattice_rotate :: "int Vector \<Rightarrow> int \<Rightarrow> int Vector \<Rightarrow> int Vector" where
  \<comment> \<open>\<open>v.rotate(angle, about=k)\<close>\<close>
  "lattice_rotate v angle k =
     lattice_add
       (lattice_add (lattice_scale (cos_deg angle) v)
                    (lattice_scale (sin_deg angle) (lattice_cross k v)))
       (lattice_scale (lattice_dot k v * (1 - cos_deg angle)) k)"

fun lattice_line :: "int Vector \<Rightarrow> int Vector \<Rightarrow> int Vector list" where
  "lattice_line (Vector a b c) (Vector d e f) =
     (let n = max \<bar>d - a\<bar> (max \<bar>e - b\<bar> \<bar>f - c\<bar>)
      in if n = 0 then [Vector a b c]
         else map (\<lambda>i. Vector (a + (2 * int i * (d - a) + n) div (2 * n))
                             (b + (2 * int i * (e - b) + n) div (2 * n))
                             (c + (2 * int i * (f - c) + n) div (2 * n)))
                  [0 ..< Suc (nat n)])"

definition lattice :: "(int Vector, int) vector_ops" where
  "lattice =
     \<lparr>vec_O = Vector 0 0 0, vec_X = Vector 1 0 0, vec_Y = Vector 0 1 0, vec_Z = Vector 0 0 1,
      vec_add = lattice_add, vec_sub = lattice_sub, vec_scale = lattice_scale,
      vec_cross = lattice_cross, vec_unit = lattice_unit, vec_rotate = lattice_rotate,
      vec_round = (\<lambda>v. v), vec_line = lattice_line\<rparr>"

section \<open>Example states\<close>

definition example_world :: "(int Vector, Block) remote_store" where
  "example_world = \<lparr>blocks = (\<lambda>_. Block ''air'' 0), online = True, fetched = [], sent = []\<rparr>"

definition example_cache :: "(int Vector, Block) TurtleCache" where
  "example_cache =
     \<lparr>world = example_world, cache = [Vector 0 0 0 \<mapsto> Block ''air'' 0], batch = None\<rparr>"


definition fresh_cache :: "(int Vector, Block) TurtleCache" where
  \<comment> \<open>a new cache on a world of air\<close>
  "fresh_cache = \<lparr>world = example_world, cache = Map.empty, batch = None\<rparr>"

definition example_turtle :: "(int Vector, int) Turtle" where
  \<comment> \<open>a turtle spawned at the origin: heading +Z, pen down, visible\<close>
  "example_turtle = snd (Turtle_init lattice fresh_cache (Vector 0 0 0))"

definition example_calls :: "(int Vector, int) turtle_call list" where
  "example_calls = [Op (Forward 2), Op (Left 90), Undo, Undo, Undo, Clear, Op PenUp, Reset, Home]"


section \<open>Dictionaries and the cache: lemmas\<close>


lemma map_of_dict_update: "map_of (dict_update d ps) = map_of d ++ map_of (rev ps)"
  by (simp add: dict_update_def updates_conv' map_upds_def zip_map_fst_snd)

lemma distinct_dict_update: "distinct (map fst d) \<Longrightarrow> distinct (map fst (dict_update d ps))"
  by (simp add: dict_update_def distinct_updates)

lemma keys_dict_update: "fst ` set (dict_update d ps) = fst ` set d \<union> fst ` set ps"
proof -
  have "dom (map_of (dict_update d ps)) = dom (map_of d) \<union> dom (map_of (rev ps))"
    by (simp add: map_of_dict_update Un_commute)
  then show ?thesis by (simp add: dom_map_of_conv_image_fst)
qed

lemma dict_of_Nil: "dict_of [] = []"
  by (simp add: dict_of_def dict_update_def)

lemma distinct_dict_of: "distinct (map fst (dict_of ps))"
  by (simp add: dict_of_def distinct_dict_update)

lemma keys_dict_of: "fst ` set (dict_of ps) = fst ` set ps"
  by (simp add: dict_of_def keys_dict_update)

lemma map_of_dict_of: "map_of (dict_of ps) = map_of (rev ps)"
  by (simp add: dict_of_def map_of_dict_update)

lemma dict_of_eq_Nil: "dict_of ps = [] \<longleftrightarrow> ps = []"
proof
  assume "dict_of ps = []"
  then have "fst ` set ps = {}" using keys_dict_of [of ps] by simp
  then show "ps = []" by simp
qed (simp add: dict_of_Nil)

lemma set_dict_of_subset: "set (dict_of ps) \<subseteq> set ps"
proof
  fix x assume "x \<in> set (dict_of ps)"
  then have "map_of (dict_of ps) (fst x) = Some (snd x)"
    using distinct_dict_of [of ps] by simp
  then have "map_of (rev ps) (fst x) = Some (snd x)" by (simp add: map_of_dict_of)
  then have "(fst x, snd x) \<in> set (rev ps)" by (rule map_of_SomeD)
  then show "x \<in> set ps" by simp
qed

lemma dict_of_distinct_id: "distinct (map fst d) \<Longrightarrow> map_of (dict_of d) = map_of d"
  by (simp add: map_of_dict_of map_of_inject_set distinct_rev rev_map [symmetric])

lemma setitem_batched:
  "batch c = Some (level, st) \<Longrightarrow>
   setitem c ps bs = (Inr (), c\<lparr>batch := Some (level, dict_update st (dict_of (zip ps bs)))\<rparr>)"
  by (simp add: setitem_def)

lemma setitem_keyerror:
  "batch c = None \<Longrightarrow> \<exists>(v, b) \<in> set (zip ps bs). cache c v = None \<Longrightarrow>
   setitem c ps bs = (Inl KeyError, c)"
  by (simp add: setitem_def)

lemma remote_set_cases:
  "remote_set w d = (Inr (), w) \<and> d = [] \<or>
   remote_set w d = (Inl TransportError, w) \<and> d \<noteq> [] \<and> \<not> online w \<or>
   remote_set w d = (Inr (), w\<lparr>blocks := (\<lambda>k. case map_of d k of None \<Rightarrow> blocks w k | Some b \<Rightarrow> b),
                   sent := sent w @ [d]\<rparr>) \<and> d \<noteq> [] \<and> online w"
  by (simp add: remote_set_def)

text \<open>
  Claim C4 (error atomicity of the cache). When the outermost batch scope exits with an
  exception, the overlay is discarded and nothing else changes: neither the shared
  cache nor the remote store is written. When a non-batched set raises, or the flush
  of the outermost scope raises, the shared cache is as it was before: the diff is
  merged only after the remote send has succeeded.
\<close>

theorem cache_error_atomicity:
  "(batch c = Some (1, st) \<longrightarrow> cache_exit c True = (Inr (), c\<lparr>batch := None\<rparr>)) \<and>
   (batch c = None \<longrightarrow> fst (setitem c ps bs) \<noteq> Inr () \<longrightarrow>
      cache (snd (setitem c ps bs)) = cache c) \<and>
   (batch c = Some (1, st) \<longrightarrow> fst (cache_exit c False) \<noteq> Inr () \<longrightarrow>
      cache (snd (cache_exit c False)) = cache c)"
proof -
  have set_fail: "cache (snd (setitem c' ps' bs')) = cache c'"
    if "batch c' = None" "fst (setitem c' ps' bs') \<noteq> Inr ()"
    for c' :: "('a, 'b) TurtleCache" and ps' bs'
  proof (cases "\<exists>(v, b) \<in> set (zip ps' bs'). cache c' v = None")
    case True
    with that show ?thesis by (simp add: setitem_keyerror)
  next
    case False
    let ?d = "dict_of (filter (\<lambda>(v, b). cache c' v \<noteq> Some b) (zip ps' bs'))"
    from remote_set_cases [of "world c'" ?d] that False show ?thesis
      by (auto simp: setitem_def Let_def)
  qed
  show ?thesis
    using set_fail [of "c\<lparr>batch := None\<rparr>" "dict_keys st" "dict_values st"]
    using set_fail [of c ps bs]
    by (auto simp: cache_exit_def Let_def)
qed

lemma setitem_unbatched:
  assumes "batch c = None" "\<not> (\<exists>(v, b) \<in> set (zip ps bs). cache c v = None)"
  shows "setitem c ps bs =
    (let diff = dict_of (filter (\<lambda>(v, b). cache c v \<noteq> Some b) (zip ps bs))
     in case remote_set (world c) diff of
          (Inl e, w) \<Rightarrow> (Inl e, c\<lparr>world := w\<rparr>)
        | (Inr _, w) \<Rightarrow> (Inr (), c\<lparr>world := w, cache := cache c ++ map_of diff\<rparr>))"
  using assms by (simp add: setitem_def)

text \<open>
  Claim C5 (diff minimization). A non-batched set whose values all equal the current
  shared-cache values of their coordinates changes nothing and performs no remote
  call. In general a non-batched set fetches nothing and transmits at most one
  transaction, which holds only written pairs whose value differs from the current
  shared-cache value.
\<close>

theorem diff_minimization:
  assumes "batch c = None"
  shows "((\<forall>(v, b) \<in> set (zip ps bs). cache c v = Some b) \<longrightarrow> setitem c ps bs = (Inr (), c)) \<and>
    fetched (world (snd (setitem c ps bs))) = fetched (world c) \<and>
    (\<exists>txs. sent (world (snd (setitem c ps bs))) = sent (world c) @ txs \<and> length txs \<le> 1 \<and>
       (\<forall>d \<in> set txs. \<forall>(k, b) \<in> set d. (k, b) \<in> set (zip ps bs) \<and> cache c k \<noteq> Some b))"
proof (cases "\<exists>(v, b) \<in> set (zip ps bs). cache c v = None")
  case True
  then have "setitem c ps bs = (Inl KeyError, c)"
    using assms by (simp add: setitem_keyerror)
  moreover from True have "\<not> (\<forall>(v, b) \<in> set (zip ps bs). cache c v = Some b)" by fastforce
  ultimately show ?thesis by simp
next
  case False
  let ?f = "filter (\<lambda>(v, b). cache c v \<noteq> Some b) (zip ps bs)"
  let ?d = "dict_of ?f"
  have eq: "setitem c ps bs =
    (case remote_set (world c) ?d of
       (Inl e, w) \<Rightarrow> (Inl e, c\<lparr>world := w\<rparr>)
     | (Inr _, w) \<Rightarrow> (Inr (), c\<lparr>world := w, cache := cache c ++ map_of ?d\<rparr>))"
    using setitem_unbatched [OF assms False] by (simp add: Let_def)
  have same: "setitem c ps bs = (Inr (), c)" if "\<forall>(v, b) \<in> set (zip ps bs). cache c v = Some b"
  proof -
    from that have "?f = []" by (auto simp: filter_empty_conv)
    then show ?thesis by (simp add: eq dict_of_Nil remote_set_def)
  qed
  have only: "\<forall>(k, b) \<in> set ?d. (k, b) \<in> set (zip ps bs) \<and> cache c k \<noteq> Some b"
    using set_dict_of_subset [of ?f] by auto
  from remote_set_cases [of "world c" ?d]
  have "fetched (world (snd (setitem c ps bs))) = fetched (world c) \<and>
    (\<exists>txs. sent (world (snd (setitem c ps bs))) = sent (world c) @ txs \<and> length txs \<le> 1 \<and>
       (\<forall>d \<in> set txs. \<forall>(k, b) \<in> set d. (k, b) \<in> set (zip ps bs) \<and> cache c k \<noteq> Some b))"
  proof (elim disjE conjE)
    assume "remote_set (world c) ?d = (Inr (), world c)"
    then show ?thesis by (simp add: eq)
  next
    assume "remote_set (world c) ?d = (Inl TransportError, world c)"
    then show ?thesis by (simp add: eq)
  next
    assume "remote_set (world c) ?d =
      (Inr (), (world c)\<lparr>blocks := (\<lambda>k. case map_of ?d k of None \<Rightarrow> blocks (world c) k | Some b \<Rightarrow> b),
                   sent := sent (world c) @ [?d]\<rparr>)"
    then have "sent (world (snd (setitem c ps bs))) = sent (world c) @ [?d]"
      and "fetched (world (snd (setitem c ps bs))) = fetched (world c)"
      by (simp_all add: eq)
    with only show ?thesis by (intro conjI exI [of _ "[?d]"]) simp_all
  qed
  with same show ?thesis by blast
qed

text \<open>
  Claim C10 (implicit precondition of non-batched writes). A non-batched set that
  writes a coordinate absent from the shared cache raises KeyError and stores nothing;
  so does the flush at the successful exit of the outermost batch scope when the
  overlay holds such a coordinate. A non-batched set succeeds only when every written
  coordinate is in the shared cache.
\<close>

theorem unbatched_write_needs_cached_keys:
  "(batch c = None \<longrightarrow> (\<exists>(v, b) \<in> set (zip ps bs). cache c v = None) \<longrightarrow>
      setitem c ps bs = (Inl KeyError, c)) \<and>
   (batch c = Some (1, st) \<longrightarrow> (\<exists>v \<in> set (dict_keys st). cache c v = None) \<longrightarrow>
      cache_exit c False = (Inl KeyError, c\<lparr>batch := None\<rparr>)) \<and>
   (batch c = None \<longrightarrow> fst (setitem c ps bs) = Inr () \<longrightarrow>
      (\<forall>(v, b) \<in> set (zip ps bs). cache c v \<noteq> None))"
proof (intro conjI impI)
  assume "batch c = None" "\<exists>(v, b) \<in> set (zip ps bs). cache c v = None"
  then show "setitem c ps bs = (Inl KeyError, c)" by (rule setitem_keyerror)
next
  assume b: "batch c = Some (1, st)" and ex: "\<exists>v \<in> set (dict_keys st). cache c v = None"
  have "zip (dict_keys st) (dict_values st) = st"
    by (simp add: dict_keys_def dict_values_def zip_map_fst_snd)
  with ex have "\<exists>(v, b) \<in> set (zip (dict_keys st) (dict_values st)). cache (c\<lparr>batch := None\<rparr>) v = None"
    by (auto simp: dict_keys_def)
  then have "setitem (c\<lparr>batch := None\<rparr>) (dict_keys st) (dict_values st) = (Inl KeyError, c\<lparr>batch := None\<rparr>)"
    by (intro setitem_keyerror) simp_all
  with b show "cache_exit c False = (Inl KeyError, c\<lparr>batch := None\<rparr>)"
    by (simp add: cache_exit_def)
next
  assume "batch c = None" "fst (setitem c ps bs) = Inr ()"
  then show "\<forall>(v, b) \<in> set (zip ps bs). cache c v \<noteq> None"
    using setitem_keyerror [of c ps bs] by fastforce
qed

lemma overlay_simps:
  "batch c = None \<Longrightarrow> overlay c = []"
  "batch c = Some (l, st) \<Longrightarrow> overlay c = st"
  by (simp_all add: overlay_def)

lemma map_of_zip_map_self:
  "map_of (zip xs (map f xs)) k = (if k \<in> set xs then Some (f k) else None)"
  by (induction xs) auto


lemma getitem_sound:
  assumes "sound c"
  shows "\<exists>c'. getitem c ps = (Inr (dict_of (map (\<lambda>v. (v, view c v)) ps)), c') \<and>
    sound c' \<and> view c' = view c \<and> batch c' = batch c \<and> set ps \<subseteq> dom (cache c') \<and>
    dom (cache c) \<subseteq> dom (cache c') \<and> blocks (world c') = blocks (world c) \<and>
    sent (world c') = sent (world c)"
proof -
  define bt where "bt = overlay c"
  define unknown where
    "unknown = remdups (filter (\<lambda>v. cache c v = None \<and> map_of bt v = None) ps)"
  define c1 where "c1 = (if unknown \<noteq> [] then
      c\<lparr>world := (world c)\<lparr>fetched := fetched (world c) @ [unknown]\<rparr>,
        cache := cache c ++ map_of (zip unknown (map (blocks (world c)) unknown))\<rparr> else c)"
  from assms have on: "online (world c)"
    and coh: "\<And>k b. cache c k = Some b \<Longrightarrow> blocks (world c) k = b"
    and sub: "fst ` set bt \<subseteq> dom (cache c)"
    by (auto simp: sound_def bt_def)
  have bt_eq: "(case batch c of Some (level, st) \<Rightarrow> st | None \<Rightarrow> []) = bt"
    by (simp add: bt_def overlay_def split: option.splits)
  have un: "k \<in> set unknown \<longleftrightarrow> k \<in> set ps \<and> cache c k = None" for k
  proof -
    have "map_of bt k = None" if "cache c k = None"
    proof (rule ccontr)
      assume "map_of bt k \<noteq> None"
      then have "k \<in> fst ` set bt" by (auto dest: map_of_SomeD intro: rev_image_eqI)
      with sub that show False by auto
    qed
    then show ?thesis by (auto simp: unknown_def)
  qed
  have c1_cache: "cache c1 k = (if k \<in> set unknown then Some (blocks (world c) k) else cache c k)" for k
  proof (cases "unknown = []")
    case True then show ?thesis by (simp add: c1_def)
  next
    case False then show ?thesis
      by (simp add: c1_def map_add_def map_of_zip_map_self)
  qed
  have c1_batch: "batch c1 = batch c" by (simp add: c1_def)
  have c1_ov: "overlay c1 = bt" by (simp add: overlay_def c1_batch bt_def)
  have c1_blocks: "blocks (world c1) = blocks (world c)" by (simp add: c1_def)
  have c1_sent: "sent (world c1) = sent (world c)" by (simp add: c1_def)
  have c1_on: "online (world c1)" using on by (simp add: c1_def)
  have known: "cache c1 v \<noteq> None" if "v \<in> set ps" for v
    using that by (simp add: c1_cache un)
  have step: "(if unknown \<noteq> [] then
               (case remote_get (world c) unknown of
                  (Inl e, w) \<Rightarrow> (Inl e, c\<lparr>world := w\<rparr>)
                | (Inr bs, w) \<Rightarrow>
                    (Inr (), c\<lparr>world := w, cache := cache c ++ map_of (zip unknown bs)\<rparr>))
             else (Inr (), c)) = (Inr (), c1)"
    using on by (simp add: c1_def remote_get_def)
  have vw: "view c1 k = view c k" for k
    by (simp add: view_def c1_ov bt_def [symmetric] c1_cache c1_blocks un split: option.splits)
  have val: "(case map_of bt v of Some b \<Rightarrow> b | None \<Rightarrow> the (cache c1 v)) = view c v"
    if "v \<in> set ps" for v
  proof -
    from known [OF that] obtain b where b: "cache c1 v = Some b" by auto
    have "view c1 v = (case map_of bt v of Some b \<Rightarrow> b | None \<Rightarrow> the (cache c1 v))"
      by (simp add: view_def c1_ov b split: option.splits)
    then show ?thesis by (simp add: vw)
  qed
  have res: "getitem c ps = (Inr (dict_of (map (\<lambda>v. (v, view c v)) ps)), c1)"
  proof -
    have m: "map (\<lambda>v. (v, case map_of bt v of Some b \<Rightarrow> b | None \<Rightarrow> the (cache c1 v))) ps =
          map (\<lambda>v. (v, view c v)) ps"
      using val by simp
    have n: "\<not> (\<exists>v \<in> set ps. cache c1 v = None)" using known by auto
    show ?thesis
      unfolding getitem_def bt_eq Let_def unknown_def [symmetric] step
      by (simp only: prod.case sum.case n if_False m)
  qed
  have snd: "sound c1"
    unfolding sound_def
  proof (intro conjI allI impI)
    show "online (world c1)" by (rule c1_on)
    show "blocks (world c1) k = b" if "cache c1 k = Some b" for k b
      using that coh [of k b] by (simp add: c1_cache c1_blocks split: if_splits)
    show "fst ` set (overlay c1) \<subseteq> dom (cache c1)"
      using sub by (auto simp: c1_ov c1_cache dom_def)
    show "distinct (map fst (overlay c1))"
      using assms by (simp add: c1_ov bt_def sound_def)
    show "case batch c1 of None \<Rightarrow> True | Some (level, st) \<Rightarrow> 1 \<le> level"
      using assms by (simp add: c1_batch sound_def)
  qed
  have "set ps \<subseteq> dom (cache c1)" using known by auto
  moreover have "dom (cache c) \<subseteq> dom (cache c1)" by (auto simp: c1_cache)
  ultimately show ?thesis
    using res snd vw c1_batch c1_blocks c1_sent by (intro exI [of _ c1]) auto
qed

lemma zip_keys_values: "zip (dict_keys d) (dict_values d) = d"
  by (simp add: dict_keys_def dict_values_def zip_map_fst_snd)

lemma map_of_filter_distinct:
  "distinct (map fst d) \<Longrightarrow>
   map_of (filter P d) k = (case map_of d k of Some b \<Rightarrow> if P (k, b) then Some b else None | None \<Rightarrow> None)"
proof (induction d)
  case Nil
  then show ?case by simp
next
  case (Cons p d)
  obtain k' b' where p: "p = (k', b')" by (cases p)
  from Cons.prems have nk: "k' \<notin> fst ` set d" and dd: "distinct (map fst d)" by (auto simp: p)
  have none: "map_of (filter P d) k' = None"
    using nk by (auto simp: map_of_eq_None_iff)
  show ?case using Cons.IH [OF dd] none by (auto simp: p)
qed

lemma setitem_unbatched_sound:
  assumes s: "sound c" and b: "batch c = None" and d: "distinct (map fst d)"
    and k: "fst ` set d \<subseteq> dom (cache c)"
  shows "\<exists>c'. setitem c (dict_keys d) (dict_values d) = (Inr (), c') \<and> sound c' \<and>
    batch c' = None \<and> view c' = override (view c) d \<and> dom (cache c') = dom (cache c) \<and>
    fetched (world c') = fetched (world c)"
proof -
  let ?P = "\<lambda>(v, b). cache c v \<noteq> Some b"
  let ?diff = "dict_of (filter ?P d)"
  from s have on: "online (world c)"
    and coh: "\<And>k b. cache c k = Some b \<Longrightarrow> blocks (world c) k = b"
    by (auto simp: sound_def)
  have nokey: "\<not> (\<exists>(v, b) \<in> set (zip (dict_keys d) (dict_values d)). cache c v = None)"
    using k by (force simp: zip_keys_values)
  have mdiff: "map_of ?diff x =
      (case map_of d x of Some b \<Rightarrow> if cache c x \<noteq> Some b then Some b else None | None \<Rightarrow> None)" for x
  proof -
    have "distinct (map fst (filter ?P d))" using d by (rule distinct_map_filter)
    then have "map_of ?diff = map_of (filter ?P d)" by (rule dict_of_distinct_id)
    then show ?thesis by (simp add: map_of_filter_distinct [OF d] split: option.splits)
  qed
  define w' where "w' = (if ?diff = [] then world c else
     (world c)\<lparr>blocks := (\<lambda>k. case map_of ?diff k of None \<Rightarrow> blocks (world c) k | Some b \<Rightarrow> b),
                sent := sent (world c) @ [?diff]\<rparr>)"
  define c' where "c' = c\<lparr>world := w', cache := cache c ++ map_of ?diff\<rparr>"
  have rs: "remote_set (world c) ?diff = (Inr (), w')"
    using on by (simp add: remote_set_def w'_def)
  have res: "setitem c (dict_keys d) (dict_values d) = (Inr (), c')"
    using setitem_unbatched [OF b nokey] by (simp add: zip_keys_values rs c'_def Let_def)
  have bl: "blocks (world c') x = (case map_of ?diff x of None \<Rightarrow> blocks (world c) x | Some b \<Rightarrow> b)" for x
    by (simp add: c'_def w'_def)
  have cc: "cache c' x = (case map_of ?diff x of None \<Rightarrow> cache c x | Some b \<Rightarrow> Some b)" for x
    by (simp add: c'_def map_add_def)
  have ov: "overlay c' = []" "overlay c = []" using b by (simp_all add: overlay_def c'_def)
  have vw: "view c' x = override (view c) d x" for x
    by (simp add: view_def ov cc bl mdiff override_def split: option.splits)
  have dm: "dom (cache c') = dom (cache c)"
  proof -
    have "dom (map_of ?diff) \<subseteq> dom (cache c)"
    proof
      fix x assume "x \<in> dom (map_of ?diff)"
      then obtain y where "map_of d x = Some y"
        by (auto simp: mdiff split: option.splits)
      then have "x \<in> fst ` set d" by (auto dest!: map_of_SomeD intro: rev_image_eqI)
      with k show "x \<in> dom (cache c)" by auto
    qed
    then show ?thesis by (auto simp: c'_def)
  qed
  have sd: "sound c'"
    unfolding sound_def
  proof (intro conjI allI impI)
    show "online (world c')" using on by (simp add: c'_def w'_def)
    show "blocks (world c') x = y" if "cache c' x = Some y" for x y
      using that coh [of x y] by (simp add: cc bl split: option.splits)
    show "fst ` set (overlay c') \<subseteq> dom (cache c')" by (simp add: ov)
    show "distinct (map fst (overlay c'))" by (simp add: ov)
    show "case batch c' of None \<Rightarrow> True | Some (level, st) \<Rightarrow> 1 \<le> level"
      using b by (simp add: c'_def)
  qed
  have "fetched (world c') = fetched (world c)" by (simp add: c'_def w'_def)
  moreover have "batch c' = None" using b by (simp add: c'_def)
  ultimately show ?thesis using res sd vw dm by (intro exI [of _ c']) auto
qed

lemma setitem_batched_sound:
  assumes s: "sound c" and b: "batch c = Some (l, st)" and d: "distinct (map fst d)"
    and k: "fst ` set d \<subseteq> dom (cache c)"
  shows "\<exists>st'. setitem c (dict_keys d) (dict_values d) = (Inr (), c\<lparr>batch := Some (l, st')\<rparr>) \<and>
    sound (c\<lparr>batch := Some (l, st')\<rparr>) \<and>
    view (c\<lparr>batch := Some (l, st')\<rparr>) = override (view c) d"
proof -
  define st' where "st' = dict_update st (dict_of d)"
  let ?c' = "c\<lparr>batch := Some (l, st')\<rparr>"
  have res: "setitem c (dict_keys d) (dict_values d) = (Inr (), ?c')"
    using setitem_batched [OF b] by (simp add: zip_keys_values st'_def)
  have ov: "overlay ?c' = st'" "overlay c = st" using b by (simp_all add: overlay_def)
  have m: "map_of st' = map_of st ++ map_of d"
  proof -
    have "distinct (map fst (dict_of d))" by (rule distinct_dict_of)
    then have "map_of (rev (dict_of d)) = map_of (dict_of d)"
      by (simp add: map_of_inject_set distinct_rev rev_map [symmetric])
    then show ?thesis by (simp add: st'_def map_of_dict_update dict_of_distinct_id [OF d])
  qed
  have vw: "view ?c' x = override (view c) d x" for x
    by (simp add: view_def ov m map_add_def override_def split: option.splits)
  have sd: "sound ?c'"
    unfolding sound_def
  proof (intro conjI allI impI)
    show "online (world ?c')" using s by (simp add: sound_def)
    show "blocks (world ?c') x = y" if "cache ?c' x = Some y" for x y
      using that s by (simp add: sound_def)
    have "fst ` set st \<subseteq> dom (cache c)" using s by (simp add: sound_def ov)
    then show "fst ` set (overlay ?c') \<subseteq> dom (cache ?c')"
      using k unfolding ov by (simp add: st'_def keys_dict_update keys_dict_of)
    have "distinct (map fst st)" using s by (simp add: sound_def ov)
    then show "distinct (map fst (overlay ?c'))"
      unfolding ov by (simp add: st'_def distinct_dict_update)
    show "case batch ?c' of None \<Rightarrow> True | Some (level, st) \<Rightarrow> 1 \<le> level"
      using s b by (simp add: sound_def)
  qed
  show ?thesis using res sd vw by (intro exI [of _ st']) auto
qed





text \<open>Witness for C4: an open batch, and a non-batched set against an unreachable store.\<close>

theorem cache_error_atomicity_witness:
  "cache_exit (example_cache\<lparr>batch := Some (1, [(Vector 0 0 0, Block ''stone'' 0)])\<rparr>) True =
     (Inr (), example_cache) \<and>
   fst (setitem (example_cache\<lparr>world := example_world\<lparr>online := False\<rparr>\<rparr>)
          [Vector 0 0 0] [Block ''stone'' 0]) \<noteq> Inr () \<and>
   cache (snd (setitem (example_cache\<lparr>world := example_world\<lparr>online := False\<rparr>\<rparr>)
          [Vector 0 0 0] [Block ''stone'' 0])) = cache example_cache \<and>
   fst (cache_exit (example_cache\<lparr>world := example_world\<lparr>online := False\<rparr>,
          batch := Some (1, [(Vector 0 0 0, Block ''stone'' 0)])\<rparr>) False) \<noteq> Inr () \<and>
   cache (snd (cache_exit (example_cache\<lparr>world := example_world\<lparr>online := False\<rparr>,
          batch := Some (1, [(Vector 0 0 0, Block ''stone'' 0)])\<rparr>) False)) = cache example_cache"
proof -
  let ?st = "[(Vector 0 0 0, Block ''stone'' 0)] :: (int Vector, Block) dict"
  let ?off = "example_cache\<lparr>world := example_world\<lparr>online := False\<rparr>\<rparr>"
  have a: "batch (example_cache\<lparr>batch := Some (1, ?st)\<rparr>) = Some (1, ?st)" by simp
  have b: "batch ?off = None" by (simp add: example_cache_def)
  have c: "batch (?off\<lparr>batch := Some (1, ?st)\<rparr>) = Some (1, ?st)" by simp
  have n: "example_cache\<lparr>batch := None\<rparr> = example_cache" by (simp add: example_cache_def)
  have f1: "fst (setitem ?off [Vector 0 0 0] [Block ''stone'' 0]) \<noteq> Inr ()"
    by (simp add: setitem_def example_cache_def example_world_def remote_set_def dict_of_def
        dict_update_def)
  have f2: "fst (cache_exit (?off\<lparr>batch := Some (1, ?st)\<rparr>) False) \<noteq> Inr ()"
    by (simp add: cache_exit_def dict_keys_def dict_values_def setitem_def example_cache_def
        example_world_def remote_set_def dict_of_def dict_update_def)
  from cache_error_atomicity [of "example_cache\<lparr>batch := Some (1, ?st)\<rparr>" ?st] a n
  have 1: "cache_exit (example_cache\<lparr>batch := Some (1, ?st)\<rparr>) True = (Inr (), example_cache)"
    by simp
  from cache_error_atomicity [of ?off ?st "[Vector 0 0 0]" "[Block ''stone'' 0]"] b f1
  have 2: "cache (snd (setitem ?off [Vector 0 0 0] [Block ''stone'' 0])) = cache example_cache"
    by simp
  from cache_error_atomicity [of "?off\<lparr>batch := Some (1, ?st)\<rparr>" ?st] c f2
  have 3: "cache (snd (cache_exit (?off\<lparr>batch := Some (1, ?st)\<rparr>) False)) = cache example_cache"
    by simp
  from 1 2 3 f1 f2 show ?thesis by simp
qed

text \<open>Witness for C5: writing the cached value of a cached coordinate.\<close>

theorem diff_minimization_witness:
  "batch example_cache = None \<and>
   cache example_cache (Vector 0 0 0) = Some (Block ''air'' 0) \<and>
   setitem example_cache [Vector 0 0 0] [Block ''air'' 0] = (Inr (), example_cache)"
proof -
  have h: "batch example_cache = None" by (simp add: example_cache_def)
  have p: "\<forall>(v, b) \<in> set (zip [Vector 0 0 0] [Block ''air'' 0]). cache example_cache v = Some b"
    by (simp add: example_cache_def)
  have q: "cache example_cache (Vector 0 0 0) = Some (Block ''air'' 0)"
    by (simp add: example_cache_def)
  from diff_minimization [OF h, of "[Vector 0 0 0]" "[Block ''air'' 0]"] p h q show ?thesis
    by blast
qed

text \<open>Witness for C10: an uncached coordinate, written directly and through a batch.\<close>

theorem unbatched_write_needs_cached_keys_witness:
  "setitem example_cache [Vector 0 0 1] [Block ''stone'' 0] = (Inl KeyError, example_cache) \<and>
   cache_exit (example_cache\<lparr>batch := Some (1, [(Vector 0 0 1, Block ''stone'' 0)])\<rparr>) False =
     (Inl KeyError, example_cache) \<and>
   fst (setitem example_cache [Vector 0 0 0] [Block ''stone'' 0]) = Inr () \<and>
   cache example_cache (Vector 0 0 0) \<noteq> None"
proof -
  let ?st = "[(Vector 0 0 1, Block ''stone'' 0)] :: (int Vector, Block) dict"
  have h: "batch example_cache = None" by (simp add: example_cache_def)
  have n: "example_cache\<lparr>batch := None\<rparr> = example_cache" by (simp add: example_cache_def)
  have u: "\<exists>(v, b) \<in> set (zip [Vector 0 0 1] [Block ''stone'' 0]). cache example_cache v = None"
    by (simp add: example_cache_def)
  have a: "batch (example_cache\<lparr>batch := Some (1, ?st)\<rparr>) = Some (1, ?st)" by simp
  have v: "\<exists>v \<in> set (dict_keys ?st). cache (example_cache\<lparr>batch := Some (1, ?st)\<rparr>) v = None"
    by (simp add: example_cache_def dict_keys_def)
  have s: "fst (setitem example_cache [Vector 0 0 0] [Block ''stone'' 0]) = Inr ()"
    by (simp add: setitem_def example_cache_def example_world_def remote_set_def dict_of_def
        dict_update_def)
  from unbatched_write_needs_cached_keys [of example_cache "[Vector 0 0 1]" "[Block ''stone'' 0]" ?st] h u
  have 1: "setitem example_cache [Vector 0 0 1] [Block ''stone'' 0] = (Inl KeyError, example_cache)"
    by blast
  from unbatched_write_needs_cached_keys [of "example_cache\<lparr>batch := Some (1, ?st)\<rparr>" _ _ ?st] a v n
  have 2: "cache_exit (example_cache\<lparr>batch := Some (1, ?st)\<rparr>) False = (Inl KeyError, example_cache)"
    by simp
  from unbatched_write_needs_cached_keys [of example_cache "[Vector 0 0 0]" "[Block ''stone'' 0]" ?st] h s
  have 3: "\<forall>(v, b) \<in> set (zip [Vector 0 0 0] [Block ''stone'' 0]). cache example_cache v \<noteq> None"
    by blast
  from 3 have 4: "cache example_cache (Vector 0 0 0) \<noteq> None" by simp
  from 1 2 4 s show ?thesis by blast
qed


text \<open>
  Claim C2 (cache read), at the input where the code departs from it: the overlay of the
  open batch holds a coordinate that the shared cache does not. The coordinate is not
  fetched, and the read raises KeyError instead of returning the overlay's value.
\<close>

theorem getitem_overlay_only_raises:
  "getitem (example_cache\<lparr>batch := Some (1, [(Vector 0 0 1, Block ''stone'' 0)])\<rparr>) [Vector 0 0 1] =
     (Inl KeyError, example_cache\<lparr>batch := Some (1, [(Vector 0 0 1, Block ''stone'' 0)])\<rparr>)"
  by (simp add: getitem_def example_cache_def)


section \<open>Sound caches: reads and writes act on the view\<close>

lemma sound_level: "sound c \<Longrightarrow> (batch c = None \<longleftrightarrow> level_of c = 0)"
  by (auto simp: sound_def level_of_def split: option.splits)

lemma enter_sound:
  assumes "sound c"
  shows "sound (cache_enter c)" "view (cache_enter c) = view c"
    "level_of (cache_enter c) = level_of c + 1" "cache (cache_enter c) = cache c"
    "world (cache_enter c) = world c" "batch (cache_enter c) \<noteq> None"
proof -
  show "view (cache_enter c) = view c"
    by (auto simp: cache_enter_def overlay_def view_def fun_eq_iff split: option.splits)
  show "level_of (cache_enter c) = level_of c + 1"
    by (auto simp: cache_enter_def level_of_def split: option.splits)
  show "cache (cache_enter c) = cache c" "world (cache_enter c) = world c"
    "batch (cache_enter c) \<noteq> None"
    by (auto simp: cache_enter_def split: option.splits)
  show "sound (cache_enter c)"
  proof (cases "batch c")
    case None
    then show ?thesis using assms by (simp add: sound_def cache_enter_def overlay_def)
  next
    case (Some p)
    obtain l st where "p = (l, st)" by (cases p)
    with Some show ?thesis using assms by (simp add: sound_def cache_enter_def overlay_def)
  qed
qed

lemma exit_sound:
  assumes s: "sound c" and b: "batch c \<noteq> None"
  shows "\<exists>c'. cache_exit c False = (Inr (), c') \<and> sound c' \<and> view c' = view c \<and>
    level_of c' = level_of c - 1 \<and> dom (cache c') = dom (cache c)"
proof -
  from b obtain l st where bc: "batch c = Some (l, st)" by (cases "batch c") auto
  from s bc have l1: "1 \<le> l" and dst: "distinct (map fst st)"
    and sub: "fst ` set st \<subseteq> dom (cache c)"
    by (auto simp: sound_def overlay_def)
  show ?thesis
  proof (cases "l = 1")
    case True
    let ?c1 = "c\<lparr>batch := None\<rparr>"
    have s1: "sound ?c1" using s by (simp add: sound_def overlay_def)
    have v1: "override (view ?c1) st = view c"
      by (auto simp: override_def view_def overlay_def bc fun_eq_iff split: option.splits)
    from setitem_unbatched_sound [OF s1 _ dst, simplified, OF sub]
    obtain c' where "setitem ?c1 (dict_keys st) (dict_values st) = (Inr (), c')" "sound c'"
      "batch c' = None" "view c' = override (view ?c1) st" "dom (cache c') = dom (cache c)"
      by auto
    then show ?thesis using True bc v1
      by (intro exI [of _ c']) (simp add: cache_exit_def level_of_def)
  next
    case False
    let ?c' = "c\<lparr>batch := Some (l - 1, st)\<rparr>"
    have "sound ?c'" using s bc l1 False by (simp add: sound_def overlay_def)
    moreover have "view ?c' = view c"
      by (auto simp: view_def overlay_def bc fun_eq_iff split: option.splits)
    ultimately show ?thesis using False bc
      by (intro exI [of _ ?c']) (simp add: cache_exit_def level_of_def)
  qed
qed

lemma draw_sound:
  assumes s: "sound c" and d: "distinct (map fst d)" and k: "fst ` set d \<subseteq> dom (cache c)"
  shows "\<exists>c'. draw c d = (Inr (), c') \<and> sound c' \<and> view c' = override (view c) d \<and>
    level_of c' = level_of c \<and> dom (cache c') = dom (cache c)"
proof (cases "batch c")
  case None
  from setitem_unbatched_sound [OF s None d k] obtain c' where
    "setitem c (dict_keys d) (dict_values d) = (Inr (), c')" "sound c'"
    "batch c' = None" "view c' = override (view c) d" "dom (cache c') = dom (cache c)"
    by auto
  then show ?thesis using None
    by (intro exI [of _ c']) (simp add: draw_def level_of_def)
next
  case (Some p)
  obtain l st where p: "p = (l, st)" by (cases p)
  from setitem_batched_sound [OF s Some [unfolded p] d k] obtain st' where
    "setitem c (dict_keys d) (dict_values d) = (Inr (), c\<lparr>batch := Some (l, st')\<rparr>)"
    "sound (c\<lparr>batch := Some (l, st')\<rparr>)"
    "view (c\<lparr>batch := Some (l, st')\<rparr>) = override (view c) d"
    by auto
  then show ?thesis using Some p
    by (intro exI [of _ "c\<lparr>batch := Some (l, st')\<rparr>"]) (simp add: draw_def level_of_def)
qed

lemma with_blocks_sound:
  assumes s: "sound (screen t)"
    and body: "body (t\<lparr>screen := cache_enter (screen t)\<rparr>) = (Inr a, t1)"
    and s1: "sound (screen t1)"
    and l1: "level_of (screen t1) = level_of (cache_enter (screen t))"
  shows "\<exists>c'. with_blocks body t = (Inr a, t1\<lparr>screen := c'\<rparr>) \<and> sound c' \<and>
    view c' = view (screen t1) \<and> level_of c' = level_of (screen t) \<and>
    dom (cache c') = dom (cache (screen t1))"
proof -
  have "level_of (screen t1) \<noteq> 0"
    using l1 enter_sound(3) [OF s] enter_sound(1) [OF s] s
    by (auto simp: sound_def level_of_def split: option.splits)
  then have "batch (screen t1) \<noteq> None" using sound_level [OF s1] by simp
  from exit_sound [OF s1 this] obtain c' where
    "cache_exit (screen t1) False = (Inr (), c')" "sound c'" "view c' = view (screen t1)"
    "level_of c' = level_of (screen t1) - 1" "dom (cache c') = dom (cache (screen t1))"
    by auto
  then show ?thesis using body l1 enter_sound(3) [OF s]
    by (intro exI [of _ c']) (simp add: with_blocks_def)
qed

lemma commit_sound:
  assumes s: "sound (screen t)" and d: "distinct (map fst ch)"
  shows "\<exists>c'. commit ch act t =
      (Inr (), t\<lparr>screen := c',
        history := history t @ [(state t)\<lparr>changed := dict_of (map (\<lambda>v. (v, view (screen t) v)) (dict_keys ch)),
                                            action := act\<rparr>]\<rparr>) \<and>
    sound c' \<and> view c' = override (view (screen t)) ch \<and>
    level_of c' = level_of (screen t) \<and> dom (cache (screen t)) \<subseteq> dom (cache c') \<and>
    set (dict_keys ch) \<subseteq> dom (cache c')"
proof -
  from getitem_sound [OF s, of "dict_keys ch"] obtain c1 where
    g: "getitem (screen t) (dict_keys ch) = (Inr (dict_of (map (\<lambda>v. (v, view (screen t) v)) (dict_keys ch))), c1)"
    and s1: "sound c1" and v1: "view c1 = view (screen t)" and b1: "batch c1 = batch (screen t)"
    and k1: "set (dict_keys ch) \<subseteq> dom (cache c1)" and d1: "dom (cache (screen t)) \<subseteq> dom (cache c1)"
    by auto
  have l1: "level_of c1 = level_of (screen t)" by (simp add: level_of_def b1)
  show ?thesis
  proof (cases "ch = []")
    case True
    have "override (view (screen t)) [] = view (screen t)" by (simp add: override_def fun_eq_iff)
    then show ?thesis using g s1 v1 l1 k1 d1 True
      by (intro exI [of _ c1]) (simp add: commit_def)
  next
    case False
    have "fst ` set ch \<subseteq> dom (cache c1)" using k1 by (simp add: dict_keys_def)
    from draw_sound [OF s1 d this] obtain c2 where
      "draw c1 ch = (Inr (), c2)" "sound c2" "view c2 = override (view c1) ch"
      "level_of c2 = level_of c1" "dom (cache c2) = dom (cache c1)"
      by auto
    then show ?thesis using g v1 l1 k1 d1 False
      by (intro exI [of _ c2]) (simp add: commit_def)
  qed
qed

lemma and_then_simps:
  "and_then (Inr a, s) f = f a s"
  "and_then (Inl e, s) f = (Inl e, s)"
  by (simp_all add: and_then_def)


lemma snapshot_keys:
  "distinct (dict_keys (snapshot V ks))" "set (dict_keys (snapshot V ks)) = set ks"
proof -
  show "distinct (dict_keys (snapshot V ks))"
    by (simp add: dict_keys_def snapshot_def distinct_dict_of)
  have "fst ` set (snapshot V ks) = fst ` set (map (\<lambda>v. (v, V v)) ks)"
    unfolding snapshot_def by (rule keys_dict_of)
  then show "set (dict_keys (snapshot V ks)) = set ks"
    by (simp add: dict_keys_def image_image)
qed


lemma override_Nil: "override V [] = V"
  by (simp add: override_def fun_eq_iff)

lemma override_same_keys:
  assumes "set (dict_keys d) = set (dict_keys m)" "\<forall>(k, b) \<in> set m. V k = b"
  shows "override (override V d) m = V"
proof
  fix k
  show "override (override V d) m k = V k"
  proof (cases "map_of m k")
    case None
    then have "k \<notin> set (dict_keys m)" by (simp add: dict_keys_def map_of_eq_None_iff)
    with assms(1) have "map_of d k = None" by (simp add: dict_keys_def map_of_eq_None_iff)
    with None show ?thesis by (simp add: override_def)
  next
    case (Some b)
    then have "(k, b) \<in> set m" by (rule map_of_SomeD)
    with assms(2) have "V k = b" by auto
    with Some show ?thesis by (simp add: override_def)
  qed
qed

lemma commit_sound':
  assumes s: "sound (screen t)" and d: "distinct (map fst ch)"
  shows "\<exists>c'. commit ch act t =
      (Inr (), t\<lparr>screen := c',
        history := history t @ [(state t)\<lparr>changed := snapshot (view (screen t)) (dict_keys ch),
                                            action := act\<rparr>]\<rparr>) \<and>
    sound c' \<and> view c' = override (view (screen t)) ch \<and>
    level_of c' = level_of (screen t) \<and> dom (cache (screen t)) \<subseteq> dom (cache c') \<and>
    set (dict_keys ch) \<subseteq> dom (cache c')"
  using commit_sound [OF s d] by (simp add: snapshot_def)

lemma undraw_loop_sound:
  assumes "sound (screen t)" "history t = B @ T"
    and "\<forall>e \<in> set T. action e = ATurtle \<and> distinct (dict_keys (changed e)) \<and>
           set (dict_keys (changed e)) \<subseteq> dom (cache (screen t))"
    and "B = [] \<or> action (last B) \<noteq> ATurtle"
  shows "\<exists>c'. undraw_loop t = (Inr (), t\<lparr>screen := c', history := B\<rparr>) \<and> sound c' \<and>
    view c' = foldr (\<lambda>e V. override V (changed e)) T (view (screen t)) \<and>
    level_of c' = level_of (screen t) \<and> dom (cache c') = dom (cache (screen t))"
  using assms
proof (induction T arbitrary: t rule: rev_induct)
  case Nil
  then have "\<not> (history t \<noteq> [] \<and> action (last (history t)) = ATurtle)" by auto
  then have "undraw_loop t = (Inr (), t)" by (subst undraw_loop.simps) auto
  moreover have "t\<lparr>screen := screen t, history := B\<rparr> = t" using Nil by simp
  ultimately show ?case using Nil by (intro exI [of _ "screen t"]) simp
next
  case (snoc e T)
  from snoc.prems have h: "history t \<noteq> []" "last (history t) = e" "butlast (history t) = B @ T"
    by (simp_all add: butlast_append)
  from snoc.prems have e: "action e = ATurtle" "distinct (map fst (changed e))"
    "fst ` set (changed e) \<subseteq> dom (cache (screen t))"
    by (simp_all add: dict_keys_def)
  from draw_sound [OF snoc.prems(1) e(2) e(3)] obtain c1 where
    d: "draw (screen t) (changed e) = (Inr (), c1)" and s1: "sound c1"
    and v1: "view c1 = override (view (screen t)) (changed e)"
    and l1: "level_of c1 = level_of (screen t)" and k1: "dom (cache c1) = dom (cache (screen t))"
    by auto
  let ?t1 = "t\<lparr>history := B @ T, screen := c1\<rparr>"
  have step: "undraw_loop t = undraw_loop ?t1"
    by (subst undraw_loop.simps) (simp add: h e d Let_def)
  have "\<exists>c'. undraw_loop ?t1 = (Inr (), ?t1\<lparr>screen := c', history := B\<rparr>) \<and> sound c' \<and>
    view c' = foldr (\<lambda>e V. override V (changed e)) T (view (screen ?t1)) \<and>
    level_of c' = level_of (screen ?t1) \<and> dom (cache c') = dom (cache (screen ?t1))"
    using snoc.prems s1 k1 by (intro snoc.IH) simp_all
  then obtain c' where "undraw_loop ?t1 = (Inr (), ?t1\<lparr>screen := c', history := B\<rparr>)" "sound c'"
    "view c' = foldr (\<lambda>e V. override V (changed e)) T (view c1)"
    "level_of c' = level_of c1" "dom (cache c') = dom (cache c1)"
    by auto
  then show ?case using step v1 l1 k1 by (intro exI [of _ c']) simp
qed

lemma undraw_turtle_sound:
  assumes s: "sound (screen t)" and h: "history t = B @ T"
    and T: "\<forall>e \<in> set T. action e = ATurtle \<and> distinct (dict_keys (changed e)) \<and>
           set (dict_keys (changed e)) \<subseteq> dom (cache (screen t))"
    and B: "B = [] \<or> action (last B) \<noteq> ATurtle"
  shows "\<exists>c'. undraw_turtle t = (Inr (), t\<lparr>screen := c', history := B\<rparr>) \<and> sound c' \<and>
    view c' = foldr (\<lambda>e V. override V (changed e)) T (view (screen t)) \<and>
    level_of c' = level_of (screen t) \<and> dom (cache c') = dom (cache (screen t))"
proof -
  let ?t0 = "t\<lparr>screen := cache_enter (screen t)\<rparr>"
  have s0: "sound (screen ?t0)" using enter_sound(1) [OF s] by simp
  have "\<exists>c'. undraw_loop ?t0 = (Inr (), ?t0\<lparr>screen := c', history := B\<rparr>) \<and> sound c' \<and>
    view c' = foldr (\<lambda>e V. override V (changed e)) T (view (screen ?t0)) \<and>
    level_of c' = level_of (screen ?t0) \<and> dom (cache c') = dom (cache (screen ?t0))"
    using s0 h T B by (intro undraw_loop_sound) (simp_all add: enter_sound(4) [OF s])
  then obtain c1 where r: "undraw_loop ?t0 = (Inr (), ?t0\<lparr>screen := c1, history := B\<rparr>)"
    and s1: "sound c1"
    and v1: "view c1 = foldr (\<lambda>e V. override V (changed e)) T (view (cache_enter (screen t)))"
    and l1: "level_of c1 = level_of (cache_enter (screen t))"
    and k1: "dom (cache c1) = dom (cache (cache_enter (screen t)))"
    by auto
  let ?t1 = "?t0\<lparr>screen := c1, history := B\<rparr>"
  have s1': "sound (screen ?t1)" using s1 by simp
  have l1': "level_of (screen ?t1) = level_of (cache_enter (screen t))" using l1 by simp
  from with_blocks_sound [where body = undraw_loop and t = t and ?t1.0 = ?t1, OF s r s1' l1']
  obtain c' where
    "with_blocks undraw_loop t = (Inr (), ?t0\<lparr>screen := c1, history := B\<rparr>\<lparr>screen := c'\<rparr>)"
    "sound c'" "view c' = view c1" "level_of c' = level_of (screen t)"
    "dom (cache c') = dom (cache c1)"
    by auto
  then show ?thesis using v1 k1 enter_sound(2,4) [OF s]
    by (intro exI [of _ c']) (simp add: undraw_turtle_def)
qed

lemma distinct_marker: "distinct (map fst (marker G s))"
  by (auto simp: marker_def Let_def distinct_dict_of distinct_update split: prod.splits)

lemma update_sound:
  fixes t :: "('v, 'r) Turtle" and G :: "('v, 'r) vector_ops"
  assumes s: "sound (screen t)" and h: "history t = B @ T"
    and T: "\<forall>e \<in> set T. action e = ATurtle \<and> distinct (dict_keys (changed e)) \<and>
           set (dict_keys (changed e)) \<subseteq> dom (cache (screen t))"
    and B: "B = [] \<or> action (last B) \<noteq> ATurtle"
  defines "V1 \<equiv> foldr (\<lambda>e V. override V (changed e)) T (view (screen t))"
  defines "drawing \<equiv> pendown (state t) \<and> position (state t) \<noteq> last_position t"
  defines "L \<equiv> if drawing then dict_of (map (\<lambda>v. (v, penblock (state t)))
                     (vec_line G (last_position t) (position (state t)))) else []"
  defines "e1 \<equiv> (state t)\<lparr>changed := snapshot V1 (dict_keys L),
                            action := (if drawing then ALine else AMove)\<rparr>"
  defines "V2 \<equiv> override V1 L"
  defines "e2 \<equiv> (state t)\<lparr>changed := snapshot V2 (dict_keys (marker G (state t))),
                            action := ATurtle\<rparr>"
  shows "\<exists>c'. update G t =
      (Inr (), t\<lparr>screen := c', history := B @ e1 # (if visible (state t) then [e2] else []),
                  last_position := position (state t)\<rparr>) \<and>
    sound c' \<and>
    view c' = (if visible (state t) then override V2 (marker G (state t)) else V2) \<and>
    level_of c' = level_of (screen t) \<and> dom (cache (screen t)) \<subseteq> dom (cache c') \<and>
    set (dict_keys L) \<subseteq> dom (cache c') \<and>
    (visible (state t) \<longrightarrow> set (dict_keys (marker G (state t))) \<subseteq> dom (cache c'))"
proof -
  let ?t0 = "t\<lparr>screen := cache_enter (screen t)\<rparr>"
  note en = enter_sound [OF s]
  have s0: "sound (screen ?t0)" using en(1) by simp
  have "\<exists>c'. undraw_turtle ?t0 = (Inr (), ?t0\<lparr>screen := c', history := B\<rparr>) \<and> sound c' \<and>
    view c' = foldr (\<lambda>e V. override V (changed e)) T (view (screen ?t0)) \<and>
    level_of c' = level_of (screen ?t0) \<and> dom (cache c') = dom (cache (screen ?t0))"
    using s0 h T B by (intro undraw_turtle_sound) (simp_all add: en(4))
  then obtain c1 where r1: "undraw_turtle ?t0 = (Inr (), t\<lparr>screen := c1, history := B\<rparr>)"
    and s1: "sound c1" and v1: "view c1 = V1"
    and l1: "level_of c1 = level_of (cache_enter (screen t))"
    and k1: "dom (cache c1) = dom (cache (screen t))"
    by (auto simp: V1_def en(2) en(4))
  let ?ta = "t\<lparr>screen := c1, history := B\<rparr>"
  have dL: "distinct (map fst L)" by (simp add: L_def distinct_dict_of)
  have "\<exists>c'. commit L (if drawing then ALine else AMove) ?ta =
      (Inr (), ?ta\<lparr>screen := c',
        history := history ?ta @ [(state ?ta)\<lparr>changed := snapshot (view (screen ?ta)) (dict_keys L),
                                            action := (if drawing then ALine else AMove)\<rparr>]\<rparr>) \<and>
    sound c' \<and> view c' = override (view (screen ?ta)) L \<and>
    level_of c' = level_of (screen ?ta) \<and> dom (cache (screen ?ta)) \<subseteq> dom (cache c') \<and>
    set (dict_keys L) \<subseteq> dom (cache c')"
    using s1 dL by (intro commit_sound') simp_all
  then obtain c2 where
    r2: "commit L (if drawing then ALine else AMove) ?ta = (Inr (), t\<lparr>screen := c2, history := B @ [e1]\<rparr>)"
    and s2: "sound c2" and v2: "view c2 = V2" and l2: "level_of c2 = level_of c1"
    and k2: "dom (cache c1) \<subseteq> dom (cache c2)" "set (dict_keys L) \<subseteq> dom (cache c2)"
    by (auto simp: v1 e1_def V2_def)
  let ?tb = "t\<lparr>screen := c2, history := B @ [e1]\<rparr>"
  have r2': "(if pendown (state ?ta) \<and> position (state ?ta) \<noteq> last_position ?ta then
            commit (dict_of (map (\<lambda>v. (v, penblock (state ?ta)))
                                 (vec_line G (last_position ?ta) (position (state ?ta))))) ALine ?ta
          else commit [] AMove ?ta) = (Inr (), ?tb)"
  proof (cases drawing)
    case True
    with r2 show ?thesis by (simp add: L_def) (simp add: drawing_def)
  next
    case False
    with r2 show ?thesis by (simp add: L_def) (auto simp: drawing_def)
  qed
  obtain c3 where
    r3: "(if visible (state ?tb) then draw_turtle G ?tb else (Inr (), ?tb)) =
         (Inr (), t\<lparr>screen := c3, history := B @ e1 # (if visible (state t) then [e2] else [])\<rparr>)"
    and s3: "sound c3"
    and v3: "view c3 = (if visible (state t) then override V2 (marker G (state t)) else V2)"
    and l3: "level_of c3 = level_of c2"
    and k3: "dom (cache c2) \<subseteq> dom (cache c3)"
       "visible (state t) \<longrightarrow> set (dict_keys (marker G (state t))) \<subseteq> dom (cache c3)"
  proof (cases "visible (state t)")
    case False
    show ?thesis
      by (rule that [of c2]) (use False s2 v2 in simp_all)
  next
    case True
    have "\<exists>c'. commit (marker G (state t)) ATurtle ?tb =
      (Inr (), ?tb\<lparr>screen := c',
        history := history ?tb @ [(state ?tb)\<lparr>changed := snapshot (view (screen ?tb)) (dict_keys (marker G (state t))),
                                            action := ATurtle\<rparr>]\<rparr>) \<and>
      sound c' \<and> view c' = override (view (screen ?tb)) (marker G (state t)) \<and>
      level_of c' = level_of (screen ?tb) \<and> dom (cache (screen ?tb)) \<subseteq> dom (cache c') \<and>
      set (dict_keys (marker G (state t))) \<subseteq> dom (cache c')"
      using s2 distinct_marker by (intro commit_sound') simp_all
    then obtain c3 where
      "commit (marker G (state t)) ATurtle ?tb = (Inr (), t\<lparr>screen := c3, history := B @ [e1, e2]\<rparr>)"
      "sound c3" "view c3 = override V2 (marker G (state t))" "level_of c3 = level_of c2"
      "dom (cache c2) \<subseteq> dom (cache c3)" "set (dict_keys (marker G (state t))) \<subseteq> dom (cache c3)"
      by (auto simp: v2 e2_def)
    then show ?thesis using True
      by (intro that [of c3]) (simp_all add: draw_turtle_def)
  qed
  let ?tc = "t\<lparr>screen := c3, history := B @ e1 # (if visible (state t) then [e2] else [])\<rparr>"
  let ?td = "?tc\<lparr>last_position := position (state t)\<rparr>"
  let ?body = "\<lambda>t.
       and_then (undraw_turtle t) (\<lambda>_ t.
       and_then
         (if pendown (state t) \<and> position (state t) \<noteq> last_position t then
            commit (dict_of (map (\<lambda>v. (v, penblock (state t)))
                                 (vec_line G (last_position t) (position (state t))))) ALine t
          else commit [] AMove t) (\<lambda>_ t.
       and_then (if visible (state t) then draw_turtle G t else (Inr (), t)) (\<lambda>_ t.
       (Inr (), t\<lparr>last_position := position (state t)\<rparr>))))"
  have body: "?body ?t0 = (Inr (), ?td)"
    by (simp only: r1 and_then_simps r2' r3) simp
  have sd: "sound (screen ?td)" using s3 by simp
  have ld: "level_of (screen ?td) = level_of (cache_enter (screen t))"
    using l3 l2 l1 by simp
  from with_blocks_sound [where body = ?body and t = t and ?t1.0 = ?td, OF s body sd ld]
  obtain c' where w: "with_blocks ?body t = (Inr (), ?td\<lparr>screen := c'\<rparr>)" and sc: "sound c'"
    and vc: "view c' = view c3" and lc: "level_of c' = level_of (screen t)"
    and kc: "dom (cache c') = dom (cache c3)"
    by auto
  have kk: "dom (cache (screen t)) \<subseteq> dom (cache c')" "set (dict_keys L) \<subseteq> dom (cache c')"
    "visible (state t) \<longrightarrow> set (dict_keys (marker G (state t))) \<subseteq> dom (cache c')"
    using k1 k2 k3 kc by blast+
  have "update G t =
      (Inr (), t\<lparr>screen := c', history := B @ e1 # (if visible (state t) then [e2] else []),
                  last_position := position (state t)\<rparr>)"
    using w by (simp add: update_def)
  then show ?thesis using sc vc v3 lc kk
    by (intro exI [of _ c']) simp
qed


section \<open>The shape of the history\<close>

lemma base_trailing: "base h @ trailing h = h"
proof -
  have "rev (base h @ trailing h) = rev h"
    by (simp add: base_def trailing_def)
  then show ?thesis using rev_is_rev_conv by blast
qed

lemma trailing_turtle: "e \<in> set (trailing h) \<Longrightarrow> action e = ATurtle"
  by (auto simp: trailing_def dest: set_takeWhileD)

lemma base_last: "base h = [] \<or> action (last (base h)) \<noteq> ATurtle"
proof (cases "dropWhile (\<lambda>e. action e = ATurtle) (rev h) = []")
  case True
  then show ?thesis by (simp add: base_def)
next
  case False
  then have "\<not> action (hd (dropWhile (\<lambda>e. action e = ATurtle) (rev h))) = ATurtle"
    by (rule hd_dropWhile)
  then show ?thesis using False by (simp add: base_def last_rev)
qed

lemma base_trailing_append:
  assumes "B = [] \<or> action (last B) \<noteq> ATurtle" "\<forall>e \<in> set T. action e = ATurtle"
  shows "base (B @ T) = B" "trailing (B @ T) = T"
proof -
  have t: "takeWhile (\<lambda>e. action e = ATurtle) (rev T @ rev B) = rev T"
  proof (cases B rule: rev_cases)
    case Nil
    then show ?thesis using assms(2) by (simp add: takeWhile_eq_all_conv)
  next
    case (snoc B' b)
    have "takeWhile (\<lambda>e. action e = ATurtle) (rev T @ rev B) =
        rev T @ takeWhile (\<lambda>e. action e = ATurtle) (rev B)"
      using assms(2) by (intro takeWhile_append2) simp
    then show ?thesis using snoc assms(1) by simp
  qed
  have d: "dropWhile (\<lambda>e. action e = ATurtle) (rev T @ rev B) = rev B"
  proof (cases B rule: rev_cases)
    case Nil
    then show ?thesis using assms(2) by simp
  next
    case (snoc B' b)
    have "dropWhile (\<lambda>e. action e = ATurtle) (rev T @ rev B) =
        dropWhile (\<lambda>e. action e = ATurtle) (rev B)"
      using assms(2) by (intro dropWhile_append2) simp
    then show ?thesis using snoc assms(1) by simp
  qed
  show "base (B @ T) = B" by (simp add: base_def d)
  show "trailing (B @ T) = T" by (simp add: trailing_def t)
qed



lemma override_marker_values:
  assumes "distinct (map fst m)" "(k, b) \<in> set m"
  shows "override V m k = b"
  using assms by (simp add: override_def)

section \<open>Undo after an operation\<close>

lemma consistent_shape:
  assumes c: "consistent G t"
  obtains B' e0 T where "history t = B' @ [e0] @ T" "base (history t) = B' @ [e0]"
    "trailing (history t) = T" "action e0 \<noteq> ATurtle" "same_pose e0 (state t)"
    "\<forall>e \<in> set T. action e = ATurtle \<and> distinct (dict_keys (changed e)) \<and>
           set (dict_keys (changed e)) \<subseteq> dom (cache (screen t))"
    "override (foldr (\<lambda>e V. override V (changed e)) T (view (screen t))) (marker G (state t)) =
       view (screen t) \<or> \<not> visible (state t)"
    "visible (state t) \<or> T = []"
proof -
  let ?B = "base (history t)" and ?T = "trailing (history t)"
  from c have ne: "?B \<noteq> []" and sp: "same_pose (last ?B) (state t)"
    by (simp_all add: consistent_def)
  from ne obtain B' e0 where B: "?B = B' @ [e0]"
    by (cases ?B rule: rev_cases) auto
  have h: "history t = B' @ [e0] @ ?T"
    using base_trailing [of "history t"] by (simp add: B)
  have a: "action e0 \<noteq> ATurtle" using base_last [of "history t"] by (simp add: B)
  have sp0: "same_pose e0 (state t)" using sp by (simp add: B)
  have T: "\<forall>e \<in> set ?T. action e = ATurtle \<and> distinct (dict_keys (changed e)) \<and>
           set (dict_keys (changed e)) \<subseteq> dom (cache (screen t))"
  proof (cases "visible (state t)")
    case True
    with c obtain e where "?T = [e]" "distinct (dict_keys (changed e))"
      "set (dict_keys (changed e)) \<subseteq> dom (cache (screen t))"
      by (auto simp: consistent_def)
    moreover from this(1) have "action e = ATurtle" using trailing_turtle [of e "history t"] by simp
    ultimately show ?thesis by simp
  next
    case False
    with c show ?thesis by (simp add: consistent_def)
  qed
  have V: "override (foldr (\<lambda>e V. override V (changed e)) ?T (view (screen t))) (marker G (state t)) =
       view (screen t) \<or> \<not> visible (state t)"
  proof (cases "visible (state t)")
    case True
    with c obtain e where e: "?T = [e]"
      "set (dict_keys (changed e)) = set (dict_keys (marker G (state t)))"
      "\<forall>(k, b) \<in> set (marker G (state t)). view (screen t) k = b"
      by (auto simp: consistent_def)
    then show ?thesis by (simp add: override_same_keys)
  next
    case False
    then show ?thesis by simp
  qed
  have N: "visible (state t) \<or> ?T = []"
    using c by (cases "visible (state t)") (simp_all add: consistent_def)
  show ?thesis
    by (rule that [of B' e0 ?T]) (use h B a sp0 T V N in simp_all)
qed


lemma perform_is_update: "\<exists>s'. perform G x t = update G (t\<lparr>state := s'\<rparr>)"
proof (cases x)
  case (Forward d)
  then show ?thesis by (simp add: forward_def Let_def split: prod.splits) blast
next
  case (Backward d)
  then show ?thesis by (simp add: backward_def Let_def split: prod.splits) blast
qed (auto simp: left_def right_def up_def down_def goto_def setheading_def setelevation_def
      penup_def pendown_op_def penblock_op_def fillblock_op_def showturtle_def hideturtle_def)

lemma update_consistent:
  fixes t :: "('v, 'r) Turtle" and G :: "('v, 'r) vector_ops"
  assumes c: "consistent G t"
  shows "\<exists>t1. update G (t\<lparr>state := s'\<rparr>) = (Inr (), t1) \<and> consistent G t1 \<and> state t1 = s'"
proof -
  from c have s: "sound (screen t)" by (simp add: consistent_def)
  obtain B' e0 T where
    h: "history t = B' @ [e0] @ T" and bh: "base (history t) = B' @ [e0]"
    and th: "trailing (history t) = T"
    and a0: "action e0 \<noteq> ATurtle" and sp: "same_pose e0 (state t)"
    and T: "\<forall>e \<in> set T. action e = ATurtle \<and> distinct (dict_keys (changed e)) \<and>
           set (dict_keys (changed e)) \<subseteq> dom (cache (screen t))"
    and V: "override (foldr (\<lambda>e V. override V (changed e)) T (view (screen t))) (marker G (state t)) =
       view (screen t) \<or> \<not> visible (state t)"
    and N: "visible (state t) \<or> T = []"
    by (rule consistent_shape [OF c]) (rule that; assumption)
  let ?t = "t\<lparr>state := s'\<rparr>"
  define V1 where "V1 = foldr (\<lambda>e V. override V (changed e)) T (view (screen t))"
  define drawing where "drawing \<longleftrightarrow> pendown s' \<and> position s' \<noteq> last_position t"
  define L where "L = (if drawing then dict_of (map (\<lambda>v. (v, penblock s'))
                     (vec_line G (last_position t) (position s'))) else [])"
  define e1 where "e1 = s'\<lparr>changed := snapshot V1 (dict_keys L),
                            action := (if drawing then ALine else AMove)\<rparr>"
  define V2 where "V2 = override V1 L"
  define e2 where "e2 = s'\<lparr>changed := snapshot V2 (dict_keys (marker G s')), action := ATurtle\<rparr>"
  have "\<exists>c'. update G ?t =
      (Inr (), ?t\<lparr>screen := c', history := (B' @ [e0]) @ e1 # (if visible (state ?t) then [e2] else []),
                  last_position := position (state ?t)\<rparr>) \<and>
    sound c' \<and>
    view c' = (if visible (state ?t) then override V2 (marker G (state ?t)) else V2) \<and>
    level_of c' = level_of (screen ?t) \<and> dom (cache (screen ?t)) \<subseteq> dom (cache c') \<and>
    set (dict_keys L) \<subseteq> dom (cache c') \<and>
    (visible (state ?t) \<longrightarrow> set (dict_keys (marker G (state ?t))) \<subseteq> dom (cache c'))"
    unfolding V1_def drawing_def L_def e1_def V2_def e2_def
    using update_sound [where t = ?t and B = "B' @ [e0]" and T = T and G = G] s h T a0
    by (simp cong: if_cong)
  then obtain c1 where
    u: "update G ?t = (Inr (), t\<lparr>state := s', screen := c1,
           history := B' @ [e0, e1] @ (if visible s' then [e2] else []),
           last_position := position s'\<rparr>)"
    and s1: "sound c1"
    and v1: "view c1 = (if visible s' then override V2 (marker G s') else V2)"
    and k1: "visible s' \<longrightarrow> set (dict_keys (marker G s')) \<subseteq> dom (cache c1)"
    by auto
  let ?t1 = "t\<lparr>state := s', screen := c1,
           history := B' @ [e0, e1] @ (if visible s' then [e2] else []),
           last_position := position s'\<rparr>"
  have a1: "action e1 \<noteq> ATurtle" by (simp add: e1_def)
  have cons: "consistent G ?t1"
  proof (cases "visible s'")
    case False
    have "base (B' @ [e0, e1]) = B' @ [e0, e1]" "trailing (B' @ [e0, e1]) = []"
      using base_trailing_append [of "B' @ [e0, e1]" "[]"] a1 by simp_all
    then show ?thesis using False s1
      by (simp add: consistent_def same_pose_def e1_def)
  next
    case True
    have "base (B' @ [e0, e1, e2]) = B' @ [e0, e1]" "trailing (B' @ [e0, e1, e2]) = [e2]"
      using base_trailing_append [of "B' @ [e0, e1]" "[e2]"] a1 by (simp_all add: e2_def)
    moreover have "\<forall>(k, b)\<in>set (marker G s'). view c1 k = b"
      using True by (auto simp: v1 intro: override_marker_values [OF distinct_marker])
    ultimately show ?thesis using True s1 k1
      by (simp add: consistent_def same_pose_def) (simp add: e1_def e2_def snapshot_keys)
  qed
  show ?thesis using u cons by (intro exI [of _ ?t1]) simp
qed

lemma init_consistent:
  fixes G :: "('v, 'r::zero) vector_ops"
  assumes s: "sound scr"
  shows "\<exists>t. Turtle_init G scr pos = (Inr (), t) \<and> consistent G t"
proof -
  define s0 :: "('v, 'r) TurtleState" where
    "s0 = \<lparr>position = pos, heading = vec_Z G, elevation = 0, visible = True,
               pendown = True, penblock = Block ''stone'' 0, fillblock = Block ''stone'' 0,
               changed = [], action = AHome\<rparr>"
  let ?t0 = "\<lparr>screen = scr, state = s0, last_position = pos, history = [s0]\<rparr>"
  define e where "e = s0\<lparr>changed := snapshot (view scr) (dict_keys (marker G s0)), action := ATurtle\<rparr>"
  have "\<exists>c'. commit (marker G s0) ATurtle ?t0 =
      (Inr (), ?t0\<lparr>screen := c',
        history := history ?t0 @ [(state ?t0)\<lparr>changed := snapshot (view (screen ?t0)) (dict_keys (marker G s0)),
                                            action := ATurtle\<rparr>]\<rparr>) \<and>
    sound c' \<and> view c' = override (view (screen ?t0)) (marker G s0) \<and>
    level_of c' = level_of (screen ?t0) \<and> dom (cache (screen ?t0)) \<subseteq> dom (cache c') \<and>
    set (dict_keys (marker G s0)) \<subseteq> dom (cache c')"
    using s distinct_marker by (intro commit_sound') simp_all
  then obtain c1 where
    r: "commit (marker G s0) ATurtle ?t0 =
       (Inr (), \<lparr>screen = c1, state = s0, last_position = pos, history = [s0, e]\<rparr>)"
    and s1: "sound c1" and v1: "view c1 = override (view scr) (marker G s0)"
    and k1: "set (dict_keys (marker G s0)) \<subseteq> dom (cache c1)"
    by (auto simp: e_def)
  let ?t1 = "\<lparr>screen = c1, state = s0, last_position = pos, history = [s0, e]\<rparr>"
  have i: "Turtle_init G scr pos = (Inr (), ?t1)"
    using r by (simp add: Turtle_init_def Let_def s0_def [symmetric] draw_turtle_def)
  have bt: "base [s0, e] = [s0]" "trailing [s0, e] = [e]"
    using base_trailing_append [of "[s0]" "[e]"] by (simp_all add: s0_def e_def)
  have "\<forall>(k, b)\<in>set (marker G s0). view c1 k = b"
    by (auto simp: v1 intro: override_marker_values [OF distinct_marker])
  then have "consistent G ?t1" using s1 k1 bt
    by (simp add: consistent_def same_pose_def) (simp add: e_def s0_def snapshot_keys)
  with i show ?thesis by blast
qed




section \<open>The home entry\<close>

lemma with_blocks_snd:
  "\<exists>c. snd (with_blocks body t) = (snd (body (t\<lparr>screen := cache_enter (screen t)\<rparr>)))\<lparr>screen := c\<rparr>"
  by (auto simp: with_blocks_def Let_def split: prod.splits sum.splits)

lemma sentinel_screen [simp]: "sentinel e0 (t\<lparr>screen := c\<rparr>) = sentinel e0 t"
  by (simp add: sentinel_def)

lemma sentinel_with_blocks:
  assumes "\<And>t. sentinel e0 t \<Longrightarrow> sentinel e0 (snd (body t))" "sentinel e0 t"
  shows "sentinel e0 (snd (with_blocks body t))"
proof -
  obtain c where "snd (with_blocks body t) =
      (snd (body (t\<lparr>screen := cache_enter (screen t)\<rparr>)))\<lparr>screen := c\<rparr>"
    using with_blocks_snd by blast
  moreover have "sentinel e0 (snd (body (t\<lparr>screen := cache_enter (screen t)\<rparr>)))"
    using assms by simp
  ultimately show ?thesis by simp
qed

lemma sentinel_and_then:
  assumes "sentinel e0 (snd m)" "\<And>a s. sentinel e0 s \<Longrightarrow> sentinel e0 (snd (f a s))"
  shows "sentinel e0 (snd (and_then m f))"
  using assms by (auto simp: and_then_def split: prod.splits sum.splits)

lemma sentinel_commit: "sentinel e0 t \<Longrightarrow> sentinel e0 (snd (commit ch a t))"
  by (auto simp: commit_def sentinel_def Let_def split: prod.splits sum.splits)

lemma sentinel_draw_turtle: "sentinel e0 t \<Longrightarrow> sentinel e0 (snd (draw_turtle G t))"
  by (simp add: draw_turtle_def sentinel_commit)

lemma sentinel_pop:
  assumes "sentinel e0 t" "action (last (history t)) \<noteq> AHome"
  shows "sentinel e0 (t\<lparr>history := butlast (history t), screen := c\<rparr>)"
proof -
  from assms obtain h where h: "history t = e0 # h" and a: "action e0 = AHome"
    by (cases "history t") (auto simp: sentinel_def)
  with assms(2) have "h \<noteq> []" by auto
  then show ?thesis using h a by (simp add: sentinel_def)
qed

lemma sentinel_undraw_loop: "sentinel e0 t \<Longrightarrow> sentinel e0 (snd (undraw_loop t))"
proof (induction t rule: undraw_loop.induct)
  case (1 t)
  show ?case
  proof (cases "history t \<noteq> [] \<and> action (last (history t)) = ATurtle")
    case False
    then have "undraw_loop t = (Inr (), t)" by (subst undraw_loop.simps) auto
    with 1 show ?thesis by simp
  next
    case True
    obtain r c where d: "draw (screen (t\<lparr>history := butlast (history t)\<rparr>)) (changed (last (history t))) = (r, c)"
      by force
    have p: "sentinel e0 (t\<lparr>history := butlast (history t), screen := c\<rparr>)"
      using "1.prems" True by (intro sentinel_pop) simp_all
    show ?thesis
    proof (cases r)
      case (Inl e)
      then have "undraw_loop t = (Inl e, t\<lparr>history := butlast (history t), screen := c\<rparr>)"
        using True d by (subst undraw_loop.simps) (simp add: Let_def)
      with p show ?thesis by simp
    next
      case (Inr u)
      then have "undraw_loop t = undraw_loop (t\<lparr>history := butlast (history t), screen := c\<rparr>)"
        using True d by (subst undraw_loop.simps) (simp add: Let_def)
      moreover have "sentinel e0 (snd (undraw_loop (t\<lparr>history := butlast (history t), screen := c\<rparr>)))"
        using "1.IH" [OF True refl refl d [symmetric] Inr] p by simp
      ultimately show ?thesis by simp
    qed
  qed
qed

lemma sentinel_clear_loop: "sentinel e0 t \<Longrightarrow> sentinel e0 (snd (clear_loop t))"
proof (induction t rule: clear_loop.induct)
  case (1 t)
  from "1.prems" have ne: "history t \<noteq> []" by (simp add: sentinel_def)
  show ?case
  proof (cases "action (last (history t)) \<noteq> AHome")
    case False
    then have "clear_loop t = (Inr (), t)" using ne by (subst clear_loop.simps) auto
    with 1 show ?thesis by simp
  next
    case True
    obtain r c where d: "draw (screen (t\<lparr>history := butlast (history t)\<rparr>)) (changed (last (history t))) = (r, c)"
      by force
    have p: "sentinel e0 (t\<lparr>history := butlast (history t), screen := c\<rparr>)"
      using "1.prems" True by (intro sentinel_pop) simp_all
    show ?thesis
    proof (cases r)
      case (Inl e)
      then have "clear_loop t = (Inl e, t\<lparr>history := butlast (history t), screen := c\<rparr>)"
        using True ne d by (subst clear_loop.simps) (simp add: Let_def)
      with p show ?thesis by simp
    next
      case (Inr u)
      then have "clear_loop t = clear_loop (t\<lparr>history := butlast (history t), screen := c\<rparr>)"
        using True ne d by (subst clear_loop.simps) (simp add: Let_def)
      moreover have "sentinel e0 (snd (clear_loop (t\<lparr>history := butlast (history t), screen := c\<rparr>)))"
        using "1.IH" [OF ne True refl refl d [symmetric] Inr] p by simp
      ultimately show ?thesis by simp
    qed
  qed
qed

lemma sentinel_state [simp]: "sentinel e0 (t\<lparr>state := s\<rparr>) = sentinel e0 t"
  by (simp add: sentinel_def)

lemma sentinel_last_position [simp]: "sentinel e0 (t\<lparr>last_position := p\<rparr>) = sentinel e0 t"
  by (simp add: sentinel_def)

lemma sentinel_undraw_turtle: "sentinel e0 t \<Longrightarrow> sentinel e0 (snd (undraw_turtle t))"
  unfolding undraw_turtle_def by (rule sentinel_with_blocks) (rule sentinel_undraw_loop)

lemma sentinel_update: "sentinel e0 t \<Longrightarrow> sentinel e0 (snd (update G t))"
  unfolding update_def
  by (intro sentinel_with_blocks sentinel_and_then sentinel_undraw_turtle)
     (auto simp: sentinel_commit sentinel_draw_turtle)

lemma sentinel_undo: "sentinel e0 t \<Longrightarrow> sentinel e0 (snd (undo G t))"
  unfolding undo_def
proof (intro sentinel_with_blocks sentinel_and_then sentinel_undraw_turtle)
  fix t :: "('a, 'b) Turtle" and a :: unit and s :: "('a, 'b) Turtle"
  assume s: "sentinel e0 s"
  show "sentinel e0 (snd (if visible (state s) then draw_turtle G s else (Inr (), s)))"
    using s by (simp add: sentinel_draw_turtle)
  show "sentinel e0
        (snd (if history s = [] then (Inl IndexError, s)
              else if action (last (history s)) \<noteq> AHome
                   then let e = last (history s); t1 = s\<lparr>history := butlast (history s)\<rparr>
                        in and_then (case draw (screen t1) (changed e) of (r, c) \<Rightarrow> (r, t1\<lparr>screen := c\<rparr>))
                            (\<lambda>_ t. if history t = [] then (Inl IndexError, t)
                                   else (Inr (), t\<lparr>state := last (history t),
                                                last_position := position (last (history t))\<rparr>))
                   else (Inr (), s)))"
  proof (cases "action (last (history s)) \<noteq> AHome")
    case False
    with s show ?thesis by simp
  next
    case True
    obtain r c where d: "draw (screen s) (changed (last (history s))) = (r, c)" by force
    have "sentinel e0 (s\<lparr>history := butlast (history s), screen := c\<rparr>)"
      using s True by (rule sentinel_pop)
    then show ?thesis using s True d
      by (auto simp: Let_def and_then_def split: sum.splits)
  qed
qed

lemma sentinel_home: "sentinel e0 t \<Longrightarrow> sentinel e0 (snd (home G t))"
  by (auto simp: home_def intro: sentinel_update)

lemma sentinel_clear: "sentinel e0 t \<Longrightarrow> sentinel e0 (snd (clear G t))"
  unfolding clear_def
  by (intro sentinel_with_blocks sentinel_and_then sentinel_clear_loop sentinel_update)

lemma sentinel_reset: "sentinel e0 t \<Longrightarrow> sentinel e0 (snd (reset G t))"
  unfolding reset_def
  by (intro sentinel_with_blocks sentinel_and_then sentinel_clear)
     (auto intro: sentinel_home)

lemma sentinel_perform: "sentinel e0 t \<Longrightarrow> sentinel e0 (snd (perform G x t))"
proof -
  assume s: "sentinel e0 t"
  obtain s' where "perform G x t = update G (t\<lparr>state := s'\<rparr>)"
    using perform_is_update by blast
  then show ?thesis using s by (simp add: sentinel_update)
qed

lemma sentinel_call: "sentinel e0 t \<Longrightarrow> sentinel e0 (snd (call G x t))"
  by (cases x) (simp_all add: sentinel_perform sentinel_undo sentinel_home sentinel_clear
      sentinel_reset)

lemma sentinel_run_calls: "sentinel e0 t \<Longrightarrow> sentinel e0 (run_calls G xs t)"
  by (induction xs arbitrary: t) (simp_all add: sentinel_call)

lemma sentinel_init:
  "\<exists>e0. sentinel e0 (snd (Turtle_init G scr pos)) \<and> position e0 = pos"
proof -
  let ?s = "\<lparr>position = pos, heading = vec_Z G, elevation = 0, visible = True,
               pendown = True, penblock = Block ''stone'' 0, fillblock = Block ''stone'' 0,
               changed = [], action = AHome\<rparr>"
  have "sentinel ?s \<lparr>screen = scr, state = ?s, last_position = pos, history = [?s]\<rparr>"
    by (simp add: sentinel_def)
  then have "sentinel ?s (snd (Turtle_init G scr pos))"
    unfolding Turtle_init_def Let_def by (rule sentinel_draw_turtle)
  then show ?thesis by (intro exI [of _ ?s]) simp
qed

text \<open>
  Claim C6 (the home entry of the history). Every public call (a state-changing
  operation, undo, home, clear, reset) keeps a non-empty history whose first entry is
  the same home-tagged entry as before, whether the call returns or raises. Hence after
  any sequence of calls on a turtle, from its construction on, the history is not
  empty, its first entry is tagged home, and it is the entry the constructor put there.
\<close>

theorem history_sentinel:
  "(sentinel e0 t \<longrightarrow> sentinel e0 (snd (call G x t))) \<and>
   history (run_calls G xs (snd (Turtle_init G scr pos))) \<noteq> [] \<and>
   action (hd (history (run_calls G xs (snd (Turtle_init G scr pos))))) = AHome \<and>
   hd (history (run_calls G xs (snd (Turtle_init G scr pos)))) =
     hd (history (snd (Turtle_init G scr pos)))"
proof -
  define t0 where "t0 = snd (Turtle_init G scr pos)"
  from sentinel_init [of G scr pos] obtain i where i: "sentinel i t0"
    unfolding t0_def by (elim exE conjE)
  then have r: "sentinel i (run_calls G xs t0)"
    by (rule sentinel_run_calls)
  have c: "sentinel e0 t \<longrightarrow> sentinel e0 (snd (call G x t))"
    by (rule impI) (rule sentinel_call)
  from i have i': "hd (history t0) = i" "action i = AHome"
    by (simp_all add: sentinel_def)
  from r have r': "history (run_calls G xs t0) \<noteq> []" "hd (history (run_calls G xs t0)) = i"
    by (simp_all add: sentinel_def)
  show ?thesis
    unfolding t0_def [symmetric] using c i' r' by simp
qed

text \<open>
  Witness for C6: the example turtle and a sequence of calls that undoes more than was
  done, clears and resets.
\<close>

theorem history_sentinel_witness:
  "sentinel (hd (history example_turtle)) example_turtle \<and>
   sentinel (hd (history example_turtle)) (snd (call lattice Undo example_turtle)) \<and>
   history (run_calls lattice example_calls example_turtle) \<noteq> [] \<and>
   action (hd (history (run_calls lattice example_calls example_turtle))) = AHome \<and>
   hd (history (run_calls lattice example_calls example_turtle)) = hd (history example_turtle)"
proof -
  note a = history_sentinel [where G = lattice and scr = fresh_cache and pos = "Vector 0 0 0"
      and ?e0.0 = "hd (history example_turtle)" and t = example_turtle and x = Undo,
      folded example_turtle_def]
  have s: "sentinel (hd (history example_turtle)) example_turtle"
    using a [where xs = "[]"] by (simp add: sentinel_def)
  from a [where xs = example_calls] s show ?thesis by blast
qed

section \<open>The pen scenario and the position arguments\<close>



text \<open>
  Claim C9, as stated, fails: a pair given as the single argument is not rejected. The
  ValueError of the unpacking is caught and ignored, and the conversion returns the
  vector whose x component is the pair itself, with y and z \<open>None\<close>.
\<close>

theorem point_arg_wrong_arity_accepted:
  "point_arg (PyTuple [PyNum 1, PyNum 2]) PyNone PyNone =
     Inr (Vector (PyTuple [PyNum (1::int), PyNum 2]) PyNone PyNone)"
  by (simp add: point_arg_def)

lemma unpack3_cases:
  "(\<exists>a b c. x = PyTuple [a, b, c] \<and> unpack3 x = Inr (a, b, c)) \<or>
   unpack3 x = Inl ValueError \<or> unpack3 x = Inl TypeError"
  by (cases x rule: unpack3.cases) auto

text \<open>
  Claim C9, amended. The conversion of the arguments never raises. An argument that is
  neither a turtle nor a sequence of three items is passed on unchanged as the x
  component of \<open>Vector(x, y, z)\<close>; \<open>goto\<close> then replaces the position of the
  snapshot by that vector and runs \<open>_update\<close>.
\<close>

theorem point_arg_never_rejects:
  "(\<exists>v. point_arg x y z = Inr v) \<and>
   ((\<forall>p. x \<noteq> PyTurtle p) \<and> (\<forall>a b c. x \<noteq> PyTuple [a, b, c]) \<longrightarrow>
      point_arg x y z = Inr (Vector x y z) \<and>
      goto_call G x y z t = update G (t\<lparr>state := (state t)\<lparr>position := Vector x y z\<rparr>\<rparr>))"
proof -
  have 1: "\<exists>v. point_arg x y z = Inr v"
    using unpack3_cases [of x] by (cases x) (auto simp: point_arg_def)
  have 2: "point_arg x y z = Inr (Vector x y z)"
    if "\<forall>p. x \<noteq> PyTurtle p" "\<forall>a b c. x \<noteq> PyTuple [a, b, c]"
    using unpack3_cases [of x] that by (cases x) (auto simp: point_arg_def)
  from 1 2 show ?thesis by (auto simp: goto_call_def goto_def)
qed

text \<open>Witness for C9: a sequence of four items.\<close>

theorem point_arg_never_rejects_witness:
  "point_arg (PyTuple [PyNum 1, PyNum 2, PyNum 3, PyNum 4]) PyNone PyNone =
     Inr (Vector (PyTuple [PyNum (1::int), PyNum 2, PyNum 3, PyNum 4]) PyNone PyNone)"
proof -
  let ?x = "PyTuple [PyNum 1, PyNum 2, PyNum 3, PyNum (4::int)]"
  have 1: "\<forall>p. ?x \<noteq> PyTurtle p" by simp
  have 2: "\<forall>a b c. ?x \<noteq> PyTuple [a, b, c]" by simp
  from point_arg_never_rejects [of ?x PyNone PyNone] 1 2 show ?thesis by blast
qed


section \<open>Undo at the home entry\<close>

lemma remote_no_index:
  "fst (remote_get w ks) \<noteq> Inl IndexError" "fst (remote_set w d) \<noteq> Inl IndexError"
  by (simp_all add: remote_get_def remote_set_def)

lemma setitem_no_index: "fst (setitem c ps bs) \<noteq> Inl IndexError"
proof (cases "batch c")
  case None
  show ?thesis
  proof (cases "\<exists>(v, b) \<in> set (zip ps bs). cache c v = None")
    case True
    with None show ?thesis by (simp add: setitem_keyerror)
  next
    case False
    let ?d = "dict_of (filter (\<lambda>(v, b). cache c v \<noteq> Some b) (zip ps bs))"
    from remote_set_cases [of "world c" ?d] show ?thesis
      using setitem_unbatched [OF None False] by (auto simp: Let_def)
  qed
next
  case (Some p)
  then show ?thesis by (cases p) (simp add: setitem_batched)
qed

lemma draw_no_index: "fst (draw c d) \<noteq> Inl IndexError"
  by (simp add: draw_def setitem_no_index)

lemma cache_exit_no_index: "fst (cache_exit c f) \<noteq> Inl IndexError"
  using setitem_no_index [of "c\<lparr>batch := None\<rparr>"]
  by (auto simp: cache_exit_def Let_def split: option.splits)

lemma getitem_no_index: "fst (getitem c ps) \<noteq> Inl IndexError"
  by (auto simp: getitem_def Let_def remote_get_def split: prod.splits sum.splits if_splits)

lemma with_blocks_cases:
  obtains c where
    "snd (with_blocks body t) = (snd (body (t\<lparr>screen := cache_enter (screen t)\<rparr>)))\<lparr>screen := c\<rparr>"
    "fst (with_blocks body t) = fst (body (t\<lparr>screen := cache_enter (screen t)\<rparr>)) \<or>
     (\<exists>e. fst (with_blocks body t) = Inl e \<and> e \<noteq> IndexError)"
proof -
  obtain r t1 where b: "body (t\<lparr>screen := cache_enter (screen t)\<rparr>) = (r, t1)" by force
  obtain x c where e: "cache_exit (screen t1) (isl r) = (x, c)" by force
  have n: "x \<noteq> Inl IndexError" using cache_exit_no_index [of "screen t1" "isl r"] e by simp
  show ?thesis
  proof (cases x)
    case (Inl err)
    with b e n show ?thesis by (intro that [of c]) (auto simp: with_blocks_def)
  next
    case (Inr u)
    with b e show ?thesis by (intro that [of c]) (auto simp: with_blocks_def)
  qed
qed

lemma commit_frame:
  "state (snd (commit ch a t)) = state t \<and> last_position (snd (commit ch a t)) = last_position t \<and>
   fst (commit ch a t) \<noteq> Inl IndexError \<and>
   (history (snd (commit ch a t)) = history t \<or>
    (\<exists>x. history (snd (commit ch a t)) = history t @ [x] \<and> action x = a))"
proof -
  obtain r c where g: "getitem (screen t) (dict_keys ch) = (r, c)" by force
  have n: "r \<noteq> Inl IndexError" using getitem_no_index [of "screen t" "dict_keys ch"] g by simp
  show ?thesis
  proof (cases r)
    case (Inl e)
    with g n show ?thesis by (simp add: commit_def)
  next
    case (Inr d)
    obtain r2 c2 where d: "draw c ch = (r2, c2)" by force
    have "r2 \<noteq> Inl IndexError" using draw_no_index [of c ch] d by simp
    with g Inr d show ?thesis by (simp add: commit_def Let_def)
  qed
qed

lemma underflow_screen [simp]: "underflow e0 (t\<lparr>screen := c\<rparr>) = underflow e0 t"
  by (simp add: underflow_def)

lemma underflow_pop:
  assumes "underflow e0 t" "action (last (history t)) = ATurtle"
  shows "underflow e0 (t\<lparr>history := butlast (history t), screen := c\<rparr>)"
proof -
  from assms(1) obtain T where h: "history t = e0 # T" and a: "action e0 = AHome"
    and T: "\<forall>e \<in> set T. action e = ATurtle"
    by (auto simp: underflow_def)
  from assms(2) h a have "T \<noteq> []" by auto
  then have "butlast (e0 # T) = e0 # butlast T" by simp
  moreover have "\<forall>e \<in> set (butlast T). action e = ATurtle"
    using T by (auto dest: in_set_butlastD)
  ultimately show ?thesis using h a by (simp add: underflow_def)
qed

lemma underflow_top:
  assumes "underflow e0 t" "\<not> (history t \<noteq> [] \<and> action (last (history t)) = ATurtle)"
  shows "history t = [e0]"
proof -
  from assms(1) obtain T where h: "history t = e0 # T" and a: "action e0 = AHome"
    and T: "\<forall>e \<in> set T. action e = ATurtle"
    by (auto simp: underflow_def)
  have "T = []"
  proof (rule ccontr)
    assume "T \<noteq> []"
    then have "last (e0 # T) \<in> set T" by simp
    with T h assms(2) show False by auto
  qed
  with h show ?thesis by simp
qed

lemma undraw_loop_frame:
  "underflow e0 t \<Longrightarrow>
   underflow e0 (snd (undraw_loop t)) \<and> state (snd (undraw_loop t)) = state t \<and>
   last_position (snd (undraw_loop t)) = last_position t \<and>
   fst (undraw_loop t) \<noteq> Inl IndexError \<and>
   (fst (undraw_loop t) = Inr () \<longrightarrow> history (snd (undraw_loop t)) = [e0])"
proof (induction t rule: undraw_loop.induct)
  case (1 t)
  show ?case
  proof (cases "history t \<noteq> [] \<and> action (last (history t)) = ATurtle")
    case False
    then have "undraw_loop t = (Inr (), t)" by (subst undraw_loop.simps) auto
    moreover have "history t = [e0]" using "1.prems" False by (rule underflow_top)
    ultimately show ?thesis using "1.prems" by simp
  next
    case True
    let ?t1 = "t\<lparr>history := butlast (history t)\<rparr>"
    obtain r c where d: "draw (screen ?t1) (changed (last (history t))) = (r, c)"
      by force
    have n: "r \<noteq> Inl IndexError"
      using draw_no_index [of "screen ?t1" "changed (last (history t))"] d by simp
    have p: "underflow e0 (?t1\<lparr>screen := c\<rparr>)"
      using underflow_pop [OF "1.prems", of c] True by simp
    show ?thesis
    proof (cases r)
      case (Inl e)
      then have "undraw_loop t = (Inl e, ?t1\<lparr>screen := c\<rparr>)"
        using True d by (subst undraw_loop.simps) (simp add: Let_def)
      with p n Inl show ?thesis by simp
    next
      case (Inr u)
      then have "undraw_loop t = undraw_loop (?t1\<lparr>screen := c\<rparr>)"
        using True d by (subst undraw_loop.simps) (simp add: Let_def)
      then show ?thesis
        using "1.IH" [OF True refl refl d [symmetric] Inr p] by simp
    qed
  qed
qed

lemma undraw_turtle_frame:
  assumes u: "underflow e0 t"
  shows "underflow e0 (snd (undraw_turtle t)) \<and> state (snd (undraw_turtle t)) = state t \<and>
   last_position (snd (undraw_turtle t)) = last_position t \<and>
   fst (undraw_turtle t) \<noteq> Inl IndexError \<and>
   (fst (undraw_turtle t) = Inr () \<longrightarrow> history (snd (undraw_turtle t)) = [e0])"
proof -
  let ?t0 = "t\<lparr>screen := cache_enter (screen t)\<rparr>"
  have u0: "underflow e0 ?t0" using u by simp
  note f = undraw_loop_frame [OF u0]
  obtain c where
    s: "snd (with_blocks undraw_loop t) = (snd (undraw_loop ?t0))\<lparr>screen := c\<rparr>"
    and r: "fst (with_blocks undraw_loop t) = fst (undraw_loop ?t0) \<or>
     (\<exists>e. fst (with_blocks undraw_loop t) = Inl e \<and> e \<noteq> IndexError)"
    by (rule with_blocks_cases)
  from f s r show ?thesis unfolding undraw_turtle_def by auto
qed

lemma underflow_count:
  "underflow e0 t \<Longrightarrow> length (filter (\<lambda>e. action e \<noteq> ATurtle) (history t)) = 1"
proof -
  assume "underflow e0 t"
  then obtain T where h: "history t = e0 # T" and a: "action e0 = AHome"
    and T: "\<forall>e \<in> set T. action e = ATurtle"
    by (auto simp: underflow_def)
  from T have "filter (\<lambda>e. action e \<noteq> ATurtle) T = []" by (simp add: filter_empty_conv)
  with h a show ?thesis by simp
qed

lemma undo_frame:
  assumes u: "underflow e0 t"
  shows "underflow e0 (snd (undo G t)) \<and> state (snd (undo G t)) = state t \<and>
    last_position (snd (undo G t)) = last_position t \<and> fst (undo G t) \<noteq> Inl IndexError"
proof -
  let ?t0 = "t\<lparr>screen := cache_enter (screen t)\<rparr>"
  let ?F = "\<lambda>(_::unit) t.
       and_then
         (if history t = [] then (Inl IndexError, t)
          else if action (last (history t)) \<noteq> AHome then
            (let e = last (history t);
                 t1 = t\<lparr>history := butlast (history t)\<rparr>
             in and_then (case draw (screen t1) (changed e) of (r, c) \<Rightarrow> (r, t1\<lparr>screen := c\<rparr>))
                  (\<lambda>_ t.
                    if history t = [] then (Inl IndexError, t)
                    else (Inr (), t\<lparr>state := last (history t),
                                     last_position := position (last (history t))\<rparr>)))
          else (Inr (), t)) (\<lambda>_ t.
       if visible (state t) then draw_turtle G t else (Inr (), t))"
  let ?body = "\<lambda>t. and_then (undraw_turtle t) ?F"
  have u0: "underflow e0 ?t0" using u by simp
  note f = undraw_turtle_frame [OF u0]
  obtain ra ta where ra: "undraw_turtle ?t0 = (ra, ta)" by force
  from f ra have fa: "underflow e0 ta" "state ta = state t" "last_position ta = last_position t"
    "ra \<noteq> Inl IndexError" "ra = Inr () \<longrightarrow> history ta = [e0]"
    by simp_all
  have b: "underflow e0 (snd (?body ?t0)) \<and> state (snd (?body ?t0)) = state t \<and>
    last_position (snd (?body ?t0)) = last_position t \<and> fst (?body ?t0) \<noteq> Inl IndexError"
  proof (cases ra)
    case (Inl e)
    with ra fa show ?thesis by (simp add: and_then_simps)
  next
    case (Inr x)
    with fa have h: "history ta = [e0]" by simp
    from fa(1) have a0: "action e0 = AHome" by (simp add: underflow_def)
    have step: "?body ?t0 = (if visible (state ta) then draw_turtle G ta else (Inr (), ta))"
      using ra Inr h a0 by (simp add: and_then_simps)
    show ?thesis
    proof (cases "visible (state ta)")
      case False
      with step fa show ?thesis by simp
    next
      case True
      note c = commit_frame [of "marker G (state ta)" ATurtle ta]
      have "underflow e0 (snd (commit (marker G (state ta)) ATurtle ta))"
        using c h a0 by (auto simp: underflow_def)
      with step True c fa show ?thesis by (simp add: draw_turtle_def)
    qed
  qed
  obtain c where
    s: "snd (with_blocks ?body t) = (snd (?body ?t0))\<lparr>screen := c\<rparr>"
    and r: "fst (with_blocks ?body t) = fst (?body ?t0) \<or>
     (\<exists>e. fst (with_blocks ?body t) = Inl e \<and> e \<noteq> IndexError)"
    by (rule with_blocks_cases)
  have ud: "undo G t = with_blocks ?body t" by (simp add: undo_def)
  from b s r show ?thesis unfolding ud by auto
qed

lemma undo_home_sound:
  fixes t :: "('v, 'r) Turtle" and G :: "('v, 'r) vector_ops"
  assumes s: "sound (screen t)" and h: "history t = e0 # T" and a0: "action e0 = AHome"
    and T: "\<forall>e \<in> set T. action e = ATurtle \<and> distinct (dict_keys (changed e)) \<and>
           set (dict_keys (changed e)) \<subseteq> dom (cache (screen t))"
  shows "fst (undo G t) = Inr ()"
proof -
  let ?t0 = "t\<lparr>screen := cache_enter (screen t)\<rparr>"
  note en = enter_sound [OF s]
  have s0: "sound (screen ?t0)" using en(1) by simp
  have "\<exists>c'. undraw_turtle ?t0 = (Inr (), ?t0\<lparr>screen := c', history := [e0]\<rparr>) \<and> sound c' \<and>
    view c' = foldr (\<lambda>e V. override V (changed e)) T (view (screen ?t0)) \<and>
    level_of c' = level_of (screen ?t0) \<and> dom (cache c') = dom (cache (screen ?t0))"
    using s0 h T a0 by (intro undraw_turtle_sound) (simp_all add: en(4))
  then obtain c1 where r1: "undraw_turtle ?t0 = (Inr (), t\<lparr>screen := c1, history := [e0]\<rparr>)"
    and s1: "sound c1" and l1: "level_of c1 = level_of (cache_enter (screen t))"
    by auto
  let ?ta = "t\<lparr>screen := c1, history := [e0]\<rparr>"
  obtain c3 tb where
    r3: "(if visible (state ?ta) then draw_turtle G ?ta else (Inr (), ?ta)) = (Inr (), tb)"
    and s3: "sound (screen tb)" and l3: "level_of (screen tb) = level_of c1"
  proof (cases "visible (state t)")
    case False
    show ?thesis
      by (rule that [of ?ta]) (use False s1 in simp_all)
  next
    case True
    have "\<exists>c'. commit (marker G (state ?ta)) ATurtle ?ta =
      (Inr (), ?ta\<lparr>screen := c',
        history := history ?ta @ [(state ?ta)\<lparr>changed := snapshot (view (screen ?ta)) (dict_keys (marker G (state ?ta))),
                                            action := ATurtle\<rparr>]\<rparr>) \<and>
      sound c' \<and> view c' = override (view (screen ?ta)) (marker G (state ?ta)) \<and>
      level_of c' = level_of (screen ?ta) \<and> dom (cache (screen ?ta)) \<subseteq> dom (cache c') \<and>
      set (dict_keys (marker G (state ?ta))) \<subseteq> dom (cache c')"
      using s1 distinct_marker by (intro commit_sound') simp_all
    then obtain c3 where
      cm: "commit (marker G (state ?ta)) ATurtle ?ta =
      (Inr (), ?ta\<lparr>screen := c3,
        history := history ?ta @ [(state ?ta)\<lparr>changed := snapshot (view (screen ?ta)) (dict_keys (marker G (state ?ta))),
                                            action := ATurtle\<rparr>]\<rparr>)"
      and p3: "sound c3" "level_of c3 = level_of (screen ?ta)"
      by blast
    show ?thesis
      by (rule that [of "?ta\<lparr>screen := c3,
        history := history ?ta @ [(state ?ta)\<lparr>changed := snapshot (view (screen ?ta)) (dict_keys (marker G (state ?ta))),
                                            action := ATurtle\<rparr>]\<rparr>"])
         (use True cm p3 in \<open>simp_all add: draw_turtle_def\<close>)
  qed
  let ?body = "\<lambda>t.
       and_then (undraw_turtle t) (\<lambda>_ t.
       and_then
         (if history t = [] then (Inl IndexError, t)
          else if action (last (history t)) \<noteq> AHome then
            (let e = last (history t);
                 t1 = t\<lparr>history := butlast (history t)\<rparr>
             in and_then (case draw (screen t1) (changed e) of (r, c) \<Rightarrow> (r, t1\<lparr>screen := c\<rparr>))
                  (\<lambda>_ t.
                    if history t = [] then (Inl IndexError, t)
                    else (Inr (), t\<lparr>state := last (history t),
                                     last_position := position (last (history t))\<rparr>)))
          else (Inr (), t)) (\<lambda>_ t.
       if visible (state t) then draw_turtle G t else (Inr (), t)))"
  have body: "?body ?t0 = (Inr (), tb)"
    using r3 a0 by (simp add: r1 and_then_simps)
  have ld: "level_of (screen tb) = level_of (cache_enter (screen t))"
    using l3 l1 by simp
  from with_blocks_sound [where body = ?body and t = t and ?t1.0 = tb, OF s body s3 ld]
  obtain c' where "with_blocks ?body t = (Inr (), tb\<lparr>screen := c'\<rparr>)"
    by auto
  then show ?thesis by (simp add: undo_def)
qed

text \<open>
  Claim C7 (undo underflow is a no-op). When only marker entries lie above the home
  entry, \<open>undo\<close> leaves the snapshot, the last-known position and the number of
  entries that are not marker entries unchanged, and the history keeps its shape; this
  holds whatever the call returns, and the call never raises IndexError, the error of
  reading past the history. On a sound cache that holds the coordinates recorded by the
  marker entries the call raises nothing at all.
\<close>

theorem undo_underflow_noop:
  fixes t :: "('v, 'r) Turtle" and G :: "('v, 'r) vector_ops"
  assumes u: "underflow e0 t"
  shows "state (snd (undo G t)) = state t \<and>
    last_position (snd (undo G t)) = last_position t \<and>
    length (filter (\<lambda>e. action e \<noteq> ATurtle) (history (snd (undo G t)))) =
      length (filter (\<lambda>e. action e \<noteq> ATurtle) (history t)) \<and>
    underflow e0 (snd (undo G t)) \<and>
    fst (undo G t) \<noteq> Inl IndexError \<and>
    (sound (screen t) \<and>
     (\<forall>e \<in> set (tl (history t)). distinct (dict_keys (changed e)) \<and>
        (\<forall>k \<in> set (dict_keys (changed e)). cache (screen t) k \<noteq> None)) \<longrightarrow>
     fst (undo G t) = Inr ())"
proof -
  note f = undo_frame [OF u, of G]
  from f have u': "underflow e0 (snd (undo G t))" by simp
  have cnt: "length (filter (\<lambda>e. action e \<noteq> ATurtle) (history (snd (undo G t)))) =
      length (filter (\<lambda>e. action e \<noteq> ATurtle) (history t))"
    using underflow_count [OF u] underflow_count [OF u'] by simp
  have ok: "fst (undo G t) = Inr ()"
    if s: "sound (screen t)"
      and k: "\<forall>e \<in> set (tl (history t)). distinct (dict_keys (changed e)) \<and>
        (\<forall>k \<in> set (dict_keys (changed e)). cache (screen t) k \<noteq> None)"
  proof -
    from u obtain T where h: "history t = e0 # T" and a: "action e0 = AHome"
      and T: "\<forall>e \<in> set T. action e = ATurtle"
      by (auto simp: underflow_def)
    have "\<forall>e \<in> set T. action e = ATurtle \<and> distinct (dict_keys (changed e)) \<and>
           set (dict_keys (changed e)) \<subseteq> dom (cache (screen t))"
      using T k h by auto
    with s h a show ?thesis by (rule undo_home_sound)
  qed
  from f cnt ok show ?thesis by blast
qed

text \<open>Witness for C7: the freshly spawned example turtle.\<close>

theorem undo_underflow_noop_witness:
  "underflow (hd (history example_turtle)) example_turtle \<and>
   sound (screen example_turtle) \<and>
   state (snd (undo lattice example_turtle)) = state example_turtle \<and>
   last_position (snd (undo lattice example_turtle)) = last_position example_turtle \<and>
   length (filter (\<lambda>e. action e \<noteq> ATurtle) (history (snd (undo lattice example_turtle)))) =
     length (filter (\<lambda>e. action e \<noteq> ATurtle) (history example_turtle)) \<and>
   fst (undo lattice example_turtle) = Inr ()"
proof -
  have "sound fresh_cache"
    by (simp add: sound_def fresh_cache_def example_world_def overlay_def)
  from init_consistent [OF this, of lattice "Vector 0 0 0"]
  have "consistent lattice example_turtle" by (auto simp: example_turtle_def)
  then have s: "sound (screen example_turtle)" by (simp add: consistent_def)
  have m: "map action (history example_turtle) = [AHome, ATurtle]" by code_simp
  then obtain a b where h: "history example_turtle = [a, b]" and ab: "action a = AHome" "action b = ATurtle"
    by (auto simp: map_eq_Cons_conv)
  have u: "underflow (hd (history example_turtle)) example_turtle"
    using h ab by (simp add: underflow_def)
  have k: "\<forall>e \<in> set (tl (history example_turtle)). distinct (dict_keys (changed e)) \<and>
        (\<forall>k \<in> set (dict_keys (changed e)). cache (screen example_turtle) k \<noteq> None)"
    by code_simp
  from undo_underflow_noop [OF u, of lattice] s k u show ?thesis by blast
qed

end
